theory Spec2Isabelle
  imports Main "HOL-Library.Word"
begin

unbundle bit_operations_syntax

section \<open>The proxy device: a bidirectional pipe between two opens\<close>

text \<open>
  A shallow embedding of \<^verbatim>\<open>proxy.c\<close>.  Every file operation of the driver is one
  atomic step on the state of one device (\<^verbatim>\<open>struct px\<close>).  The wait queues hold
  sleeping callers and carry no data, so \<^verbatim>\<open>wake_up_interruptible\<close> and
  \<^verbatim>\<open>poll_wait\<close> leave the state as it is; a caller that goes to sleep in
  \<^verbatim>\<open>wait_event_interruptible\<close> is the outcome \<open>Sleeps\<close>, and it is woken by
  a later step of the peer, after which the loop condition is tested again on the new
  state.  The semaphore is taken and released inside \<^verbatim>\<open>proxy_open\<close> and
  \<^verbatim>\<open>proxy_release\<close> on every path, so between steps it is free and
  \<^verbatim>\<open>down_interruptible\<close> returns 0.  The \<^verbatim>\<open>printk\<close> calls are left out.

  The cursors are C \<^verbatim>\<open>int\<close>s; they are modelled as \<open>int\<close>, the arithmetic on
  them stays between \<open>- buffersize\<close> and \<open>2 * buffersize\<close>.  The byte count of a
  call is a \<^verbatim>\<open>size_t\<close> that the code casts to \<^verbatim>\<open>int\<close>; that cast is
  written out (\<open>int_of_size_t\<close>).
\<close>

subsection \<open>Data\<close>

type_synonym byte = "8 word"

text \<open>A \<^verbatim>\<open>struct file *\<close>: the address is a number, a pointer that may be null an option.\<close>

type_synonym file_ptr = nat

text \<open>
  \<^verbatim>\<open>struct cirbuf\<close>.  \<open>buf\<close> is \<open>None\<close> while the pointer is null, and holds the
  allocated bytes afterwards.
\<close>

record cirbuf =
  buf :: "byte list option"
  widx :: int
  ridx :: int
  cidx :: int

text \<open>\<^verbatim>\<open>struct px\<close>, without the semaphore.\<close>

record px =
  minor :: int
  ewbuf :: cirbuf
  webuf :: cirbuf
  nopen :: int
  east :: "file_ptr option"
  west :: "file_ptr option"
  eastaccmode :: int
  westaccmode :: int

datatype errno = ERESTARTSYS | EBUSY | ENOMEM | EWOULDBLOCK | EFAULT

text \<open>
  What a call does: it returns a value, it fails with \<open>- errno\<close>, it sleeps on the
  wait queue of its buffer, or it touches kernel memory that is not there (a null or
  too short \<open>buf\<close>), which C leaves undefined.
\<close>

datatype 'a outcome = Returns 'a | Fails errno | Sleeps | KernelFault

subsection \<open>Constants of the kernel headers\<close>

text \<open>
  The values of \<^verbatim>\<open>asm-generic/fcntl.h\<close> and \<^verbatim>\<open>asm-generic/poll.h\<close>; the
  headers are not part of the repository.
\<close>

definition O_ACCMODE :: int where "O_ACCMODE = 3"
definition O_RDONLY :: int where "O_RDONLY = 0"
definition O_WRONLY :: int where "O_WRONLY = 1"
definition O_RDWR :: int where "O_RDWR = 2"
definition O_NONBLOCK :: int where "O_NONBLOCK = 2048"

definition POLLIN :: int where "POLLIN = 1"
definition POLLOUT :: int where "POLLOUT = 4"
definition POLLRDNORM :: int where "POLLRDNORM = 64"
definition POLLWRNORM :: int where "POLLWRNORM = 256"

text \<open>The cast \<^verbatim>\<open>(int) count\<close> of a \<^verbatim>\<open>size_t\<close>: the low 32 bits, two's complement.\<close>

definition int_of_size_t :: "nat \<Rightarrow> int" where
  "int_of_size_t count = sint (word_of_nat count :: 32 word)"

subsection \<open>Module initialisation\<close>

text \<open>One element of \<^verbatim>\<open>px_devices\<close> after \<^verbatim>\<open>proxy_init_module\<close>.\<close>

definition cirbuf_init :: cirbuf where
  "cirbuf_init = \<lparr>buf = None, widx = 0, ridx = 0, cidx = - 1\<rparr>"

definition px_init :: "int \<Rightarrow> px" where
  "px_init i = \<lparr>minor = i, ewbuf = cirbuf_init, webuf = cirbuf_init, nopen = 0,
     east = None, west = None, eastaccmode = 0, westaccmode = 0\<rparr>"

subsection \<open>\<^verbatim>\<open>proxy_open\<close> and \<^verbatim>\<open>proxy_release\<close>\<close>

text \<open>
  \<open>km_ew\<close> and \<open>km_we\<close> are what \<^verbatim>\<open>kmalloc(buffersize, GFP_KERNEL)\<close> gives when it
  is called for the one and the other buffer: \<open>None\<close> is the null pointer, otherwise the
  memory with whatever bytes it holds.  The open count is incremented before the
  allocations and stays incremented when one of them fails.
\<close>

definition proxy_open :: "byte list option \<Rightarrow> byte list option \<Rightarrow> px \<Rightarrow> file_ptr \<Rightarrow> int
    \<Rightarrow> int outcome \<times> px" where
  "proxy_open km_ew km_we dev0 filp f_flags =
     (if nopen dev0 \<ge> 2 then (Fails EBUSY, dev0)
      else
        let dev1 = dev0\<lparr>nopen := nopen dev0 + 1\<rparr>;
            dev2 = (if buf (ewbuf dev1) = None
                    then dev1\<lparr>ewbuf := (ewbuf dev1)\<lparr>buf := km_ew\<rparr>\<rparr> else dev1)
        in if buf (ewbuf dev2) = None then (Fails ENOMEM, dev2)
        else
          let dev3 = (if buf (webuf dev2) = None
                      then dev2\<lparr>webuf := (webuf dev2)\<lparr>buf := km_we\<rparr>\<rparr> else dev2)
          in if buf (webuf dev3) = None then (Fails ENOMEM, dev3)
          else if east dev3 = None then
            (Returns 0,
             dev3\<lparr>east := Some filp,
                  webuf := (webuf dev3)\<lparr>ridx := widx (webuf dev3), cidx := - 1\<rparr>,
                  ewbuf := (ewbuf dev3)\<lparr>cidx := - 1\<rparr>,
                  eastaccmode := f_flags\<rparr>)
          else if west dev3 = None then
            (Returns 0,
             dev3\<lparr>west := Some filp,
                  ewbuf := (ewbuf dev3)\<lparr>ridx := widx (ewbuf dev3), cidx := - 1\<rparr>,
                  webuf := (webuf dev3)\<lparr>cidx := - 1\<rparr>,
                  westaccmode := f_flags\<rparr>)
          else (Returns 0, dev3))"

definition proxy_release :: "px \<Rightarrow> file_ptr \<Rightarrow> int outcome \<times> px" where
  "proxy_release dev0 filp =
     (let dev1 = dev0\<lparr>nopen := nopen dev0 - 1\<rparr>
      in if east dev1 = Some filp then
           (Returns 0, dev1\<lparr>east := None, ewbuf := (ewbuf dev1)\<lparr>cidx := widx (ewbuf dev1)\<rparr>\<rparr>)
         else if west dev1 = Some filp then
           (Returns 0, dev1\<lparr>west := None, webuf := (webuf dev1)\<lparr>cidx := widx (webuf dev1)\<rparr>\<rparr>)
         else (Returns 0, dev1))"

subsection \<open>\<^verbatim>\<open>is_full\<close>\<close>

definition is_full :: "int \<Rightarrow> cirbuf \<Rightarrow> bool" where
  "is_full buffersize pcbuffer =
     (ridx pcbuffer - widx pcbuffer = 1 \<or>
      (ridx pcbuffer = 0 \<and> widx pcbuffer = buffersize - 1))"

subsection \<open>Copies between the ring and user memory\<close>

text \<open>
  \<^verbatim>\<open>copy_to_user(buff + d, buf + off, n)\<close>: the bytes read from the ring.  The length
  is an \<^verbatim>\<open>int\<close> passed as \<^verbatim>\<open>unsigned long\<close>, so a negative one is a length no
  user buffer has and the copy reports a fault.  The caller's buffer has room for the
  \<open>count\<close> bytes it asks for.
\<close>

definition copy_to_user :: "byte list option \<Rightarrow> int \<Rightarrow> int \<Rightarrow> byte list outcome" where
  "copy_to_user kbuf off n =
     (if n < 0 then Fails EFAULT
      else case kbuf of
        None \<Rightarrow> KernelFault
      | Some b \<Rightarrow>
          if off < 0 \<or> int (length b) < off + n then KernelFault
          else Returns (take (nat n) (drop (nat off) b)))"

text \<open>
  \<^verbatim>\<open>copy_from_user(buf + off, buff + s, n)\<close>: the ring after the copy.  \<open>buff\<close> is
  the readable user memory, \<open>count\<close> bytes long.
\<close>

definition copy_from_user :: "byte list option \<Rightarrow> int \<Rightarrow> byte list \<Rightarrow> int \<Rightarrow> int
    \<Rightarrow> byte list option outcome" where
  "copy_from_user kbuf off buff s n =
     (if n < 0 \<or> int (length buff) < s + n then Fails EFAULT
      else case kbuf of
        None \<Rightarrow> KernelFault
      | Some b \<Rightarrow>
          if off < 0 \<or> int (length b) < off + n then KernelFault
          else Returns (Some (take (nat off) b @ take (nat n) (drop (nat s) buff)
                                @ drop (nat (off + n)) b)))"

subsection \<open>\<^verbatim>\<open>proxy_read\<close>\<close>

text \<open>
  The body of \<^verbatim>\<open>proxy_read\<close> once \<open>pcbuffer\<close> is chosen.  \<open>sig\<close> says whether a
  signal is pending when the caller has to wait.  The result carries the return value
  and the bytes stored at \<open>buff\<close>.
\<close>

definition cirbuf_read :: "int \<Rightarrow> cirbuf \<Rightarrow> int \<Rightarrow> nat \<Rightarrow> bool
    \<Rightarrow> (int \<times> byte list) outcome \<times> cirbuf" where
  "cirbuf_read buffersize pcbuffer f_flags count sig =
     (if ridx pcbuffer = cidx pcbuffer then (Returns (0, []), pcbuffer)
      else if ridx pcbuffer = widx pcbuffer then
        (if f_flags AND O_NONBLOCK \<noteq> 0 then (Fails EWOULDBLOCK, pcbuffer)
         else if sig then (Fails ERESTARTSYS, pcbuffer)
         else (Sleeps, pcbuffer))
      else
        let xfer0 = widx pcbuffer - ridx pcbuffer;
            xfer1 = (if xfer0 < 0 then xfer0 + buffersize else xfer0);
            xfer = min (int_of_size_t count) xfer1;
            ret = xfer;
            cpcnt0 = buffersize - ridx pcbuffer;
            cpcnt = (if cpcnt0 < xfer then cpcnt0 else xfer)
        in case (if cpcnt \<noteq> 0 then copy_to_user (buf pcbuffer) (ridx pcbuffer) cpcnt
                 else Returns []) of
             Fails e \<Rightarrow> (Fails e, pcbuffer)
           | Sleeps \<Rightarrow> (Sleeps, pcbuffer)
           | KernelFault \<Rightarrow> (KernelFault, pcbuffer)
           | Returns out1 \<Rightarrow>
               (case (if xfer - cpcnt > 0 then copy_to_user (buf pcbuffer) 0 (xfer - cpcnt)
                      else Returns []) of
                  Fails e \<Rightarrow> (Fails e, pcbuffer)
                | Sleeps \<Rightarrow> (Sleeps, pcbuffer)
                | KernelFault \<Rightarrow> (KernelFault, pcbuffer)
                | Returns out2 \<Rightarrow>
                    let r0 = ridx pcbuffer + xfer;
                        r = r0 - (if r0 > buffersize - 1 then buffersize else 0)
                    in (Returns (ret, out1 @ out2), pcbuffer\<lparr>ridx := r\<rparr>)))"

definition proxy_read :: "int \<Rightarrow> px \<Rightarrow> file_ptr \<Rightarrow> int \<Rightarrow> nat \<Rightarrow> bool
    \<Rightarrow> (int \<times> byte list) outcome \<times> px" where
  "proxy_read buffersize dev filp f_flags count sig =
     (if Some filp = east dev then
        (case cirbuf_read buffersize (webuf dev) f_flags count sig of
           (res, pcbuffer) \<Rightarrow> (res, dev\<lparr>webuf := pcbuffer\<rparr>))
      else if Some filp = west dev then
        (case cirbuf_read buffersize (ewbuf dev) f_flags count sig of
           (res, pcbuffer) \<Rightarrow> (res, dev\<lparr>ewbuf := pcbuffer\<rparr>))
      else (Returns (0, []), dev))"

subsection \<open>\<^verbatim>\<open>proxy_write\<close>\<close>

text \<open>
  The body of \<^verbatim>\<open>proxy_write\<close> once \<open>pcbuffer\<close> is chosen; \<open>n_open\<close> is
  \<^verbatim>\<open>dev->nopen\<close> and \<open>count\<close> is the length of \<open>buff\<close>.  When the second copy
  faults, the bytes of the first one are already in the ring, behind the write cursor.
\<close>

definition cirbuf_write :: "int \<Rightarrow> int \<Rightarrow> cirbuf \<Rightarrow> int \<Rightarrow> byte list \<Rightarrow> bool
    \<Rightarrow> int outcome \<times> cirbuf" where
  "cirbuf_write buffersize n_open pcbuffer f_flags buff sig =
     (if n_open \<noteq> 2 \<or> is_full buffersize pcbuffer then
        (if f_flags AND O_NONBLOCK \<noteq> 0 then (Fails EWOULDBLOCK, pcbuffer)
         else if sig then (Fails ERESTARTSYS, pcbuffer)
         else (Sleeps, pcbuffer))
      else
        let count = length buff;
            xfer0 = ridx pcbuffer - 1 - widx pcbuffer;
            xfer1 = (if xfer0 < 0 then xfer0 + buffersize else xfer0);
            xfer = min (int_of_size_t count) xfer1;
            ret = xfer;
            cpcnt = min xfer (buffersize - widx pcbuffer)
        in case (if cpcnt \<noteq> 0 then copy_from_user (buf pcbuffer) (widx pcbuffer) buff 0 cpcnt
                 else Returns (buf pcbuffer)) of
             Fails e \<Rightarrow> (Fails e, pcbuffer)
           | Sleeps \<Rightarrow> (Sleeps, pcbuffer)
           | KernelFault \<Rightarrow> (KernelFault, pcbuffer)
           | Returns b1 \<Rightarrow>
               (case (if xfer - cpcnt > 0 then copy_from_user b1 0 buff cpcnt (xfer - cpcnt)
                      else Returns b1) of
                  Fails e \<Rightarrow> (Fails e, pcbuffer\<lparr>buf := b1\<rparr>)
                | Sleeps \<Rightarrow> (Sleeps, pcbuffer\<lparr>buf := b1\<rparr>)
                | KernelFault \<Rightarrow> (KernelFault, pcbuffer\<lparr>buf := b1\<rparr>)
                | Returns b2 \<Rightarrow>
                    let w0 = widx pcbuffer + xfer;
                        w = w0 - (if w0 > buffersize - 1 then buffersize else 0);
                        c = (if count = 0 then w else cidx pcbuffer)
                    in (Returns ret, pcbuffer\<lparr>buf := b2, widx := w, cidx := c\<rparr>)))"

definition proxy_write :: "int \<Rightarrow> px \<Rightarrow> file_ptr \<Rightarrow> int \<Rightarrow> byte list \<Rightarrow> bool
    \<Rightarrow> int outcome \<times> px" where
  "proxy_write buffersize dev filp f_flags buff sig =
     (if Some filp = east dev then
        (case cirbuf_write buffersize (nopen dev) (ewbuf dev) f_flags buff sig of
           (res, pcbuffer) \<Rightarrow> (res, dev\<lparr>ewbuf := pcbuffer\<rparr>))
      else if Some filp = west dev then
        (case cirbuf_write buffersize (nopen dev) (webuf dev) f_flags buff sig of
           (res, pcbuffer) \<Rightarrow> (res, dev\<lparr>webuf := pcbuffer\<rparr>))
      else (Returns 0, dev))"

subsection \<open>\<^verbatim>\<open>proxy_poll\<close>\<close>

definition proxy_poll :: "int \<Rightarrow> px \<Rightarrow> file_ptr \<Rightarrow> int \<Rightarrow> int" where
  "proxy_poll buffersize dev filp f_flags =
     (if Some filp = west dev then
        (let ready_mask =
               (if \<not> is_full buffersize (webuf dev) \<and> nopen dev = 2
                   \<and> cidx (webuf dev) \<noteq> widx (webuf dev)
                   \<and> eastaccmode dev AND O_ACCMODE \<noteq> O_WRONLY
                   \<and> f_flags AND O_ACCMODE \<noteq> O_RDONLY
                then POLLOUT OR POLLWRNORM else 0)
         in if (widx (ewbuf dev) \<noteq> ridx (ewbuf dev) \<or> ridx (ewbuf dev) = cidx (ewbuf dev))
               \<and> eastaccmode dev AND O_ACCMODE \<noteq> O_RDONLY
               \<and> f_flags AND O_ACCMODE \<noteq> O_WRONLY
            then ready_mask OR (POLLIN OR POLLRDNORM) else ready_mask)
      else if Some filp = east dev then
        (let ready_mask =
               (if \<not> is_full buffersize (ewbuf dev) \<and> nopen dev = 2
                   \<and> cidx (ewbuf dev) \<noteq> widx (ewbuf dev)
                   \<and> westaccmode dev AND O_ACCMODE \<noteq> O_WRONLY
                   \<and> f_flags AND O_ACCMODE \<noteq> O_RDONLY
                then POLLOUT OR POLLWRNORM else 0)
         in if (widx (webuf dev) \<noteq> ridx (webuf dev) \<or> ridx (webuf dev) = cidx (webuf dev))
               \<and> westaccmode dev AND O_ACCMODE \<noteq> O_RDONLY
               \<and> f_flags AND O_ACCMODE \<noteq> O_WRONLY
            then ready_mask OR (POLLIN OR POLLRDNORM) else ready_mask)
      else 0)"

section \<open>Notions used to state the properties\<close>

subsection \<open>The bytes in a ring\<close>

text \<open>
  \<open>ring r k b\<close> are the \<open>k\<close> bytes of the storage \<open>b\<close> from index \<open>r\<close> on, going
  round at the end of \<open>b\<close>.  \<open>ring_put w n buff b\<close> is the storage after the two
  copies of \<^verbatim>\<open>proxy_write\<close> have put the first \<open>n\<close> bytes of \<open>buff\<close> at index
  \<open>w\<close>.
\<close>

definition ring :: "nat \<Rightarrow> nat \<Rightarrow> 'a list \<Rightarrow> 'a list" where
  "ring r k b = map (\<lambda>i. b ! ((r + i) mod length b)) [0..<k]"

definition ring_put :: "nat \<Rightarrow> nat \<Rightarrow> 'a list \<Rightarrow> 'a list \<Rightarrow> 'a list" where
  "ring_put w n buff b =
     (let c = min n (length b - w);
          b1 = take w b @ take c buff @ drop (w + c) b
      in if n - c > 0 then take (n - c) (drop c buff) @ drop (n - c) b1 else b1)"

text \<open>
  A buffer of a device that has been opened: both cursors are indices of the storage,
  and the storage has \<open>buffersize\<close> bytes.
\<close>

definition cirbuf_ok :: "int \<Rightarrow> cirbuf \<Rightarrow> bool" where
  "cirbuf_ok buffersize p =
     (0 \<le> widx p \<and> widx p < buffersize \<and> 0 \<le> ridx p \<and> ridx p < buffersize \<and>
      (case buf p of None \<Rightarrow> False | Some b \<Rightarrow> int (length b) = buffersize))"

text \<open>The bytes written and not yet read, oldest first.\<close>

definition contents :: "cirbuf \<Rightarrow> byte list" where
  "contents p =
     (case buf p of None \<Rightarrow> []
      | Some b \<Rightarrow> ring (nat (ridx p)) (nat ((widx p - ridx p) mod int (length b))) b)"

subsection \<open>Sides and directions\<close>

text \<open>
  The two buffers, and the choice of \<open>pcbuffer\<close> at the head of
  \<^verbatim>\<open>proxy_write\<close> (\<open>wdir\<close>) and of \<^verbatim>\<open>proxy_read\<close> (\<open>rdir\<close>): east writes
  into \<open>ewbuf\<close> and reads from \<open>webuf\<close>, west the other way round.
\<close>

datatype dir = EW | WE

fun getbuf :: "dir \<Rightarrow> px \<Rightarrow> cirbuf" where
  "getbuf EW dev = ewbuf dev"
| "getbuf WE dev = webuf dev"

fun setbuf :: "dir \<Rightarrow> cirbuf \<Rightarrow> px \<Rightarrow> px" where
  "setbuf EW p dev = dev\<lparr>ewbuf := p\<rparr>"
| "setbuf WE p dev = dev\<lparr>webuf := p\<rparr>"

definition wdir :: "px \<Rightarrow> file_ptr \<Rightarrow> dir option" where
  "wdir dev filp =
     (if Some filp = east dev then Some EW
      else if Some filp = west dev then Some WE else None)"

definition rdir :: "px \<Rightarrow> file_ptr \<Rightarrow> dir option" where
  "rdir dev filp =
     (if Some filp = east dev then Some WE
      else if Some filp = west dev then Some EW else None)"

text \<open>The file on the other side, and the access mode recorded for that side.\<close>

definition peer :: "px \<Rightarrow> file_ptr \<Rightarrow> file_ptr option" where
  "peer dev filp =
     (if Some filp = east dev then west dev
      else if Some filp = west dev then east dev else None)"

definition peer_accmode :: "px \<Rightarrow> file_ptr \<Rightarrow> int" where
  "peer_accmode dev filp =
     (if Some filp = east dev then westaccmode dev else eastaccmode dev)"

text \<open>The open count is the number of sides in use.\<close>

definition open_count_ok :: "px \<Rightarrow> bool" where
  "open_count_ok dev =
     (nopen dev = (if east dev = None then 0 else 1) + (if west dev = None then 0 else 1))"

text \<open>A run of writes through one file, with the result of each.\<close>

fun write_all :: "int \<Rightarrow> px \<Rightarrow> file_ptr \<Rightarrow> int \<Rightarrow> byte list list \<Rightarrow> bool
    \<Rightarrow> int outcome list \<times> px" where
  "write_all buffersize dev filp f_flags [] sig = ([], dev)"
| "write_all buffersize dev filp f_flags (buff # rest) sig =
     (case proxy_write buffersize dev filp f_flags buff sig of
        (res, dev1) \<Rightarrow>
          (case write_all buffersize dev1 filp f_flags rest sig of
             (ress, dev2) \<Rightarrow> (res # ress, dev2)))"

text \<open>
  The file that writes into the buffer of a direction: the east for east-to-west, the
  west for west-to-east.
\<close>

definition writer_side :: "dir \<Rightarrow> px \<Rightarrow> file_ptr option" where
  "writer_side d dev = (case d of EW \<Rightarrow> east dev | WE \<Rightarrow> west dev)"

text \<open>
  A run of reads, writes and releases by any files, one after the other; the state
  after the run.
\<close>

datatype call =
    CallRead file_ptr int nat bool
  | CallWrite file_ptr int "byte list" bool
  | CallRelease file_ptr

fun call_step :: "int \<Rightarrow> px \<Rightarrow> call \<Rightarrow> px" where
  "call_step buffersize dev (CallRead filp f_flags count sig) =
     snd (proxy_read buffersize dev filp f_flags count sig)"
| "call_step buffersize dev (CallWrite filp f_flags buff sig) =
     snd (proxy_write buffersize dev filp f_flags buff sig)"
| "call_step buffersize dev (CallRelease filp) = snd (proxy_release dev filp)"

definition run :: "int \<Rightarrow> px \<Rightarrow> call list \<Rightarrow> px" where
  "run buffersize dev calls = foldl (call_step buffersize) dev calls"

subsection \<open>Example states\<close>

text \<open>
  Devices with 8-byte buffers: one with only the east side open, and one with both
  sides open (file 1 on the east, file 2 on the west) whose east-to-west cursors stand
  at 6, so that a run of three bytes goes round the end of the storage.
\<close>

definition zeros8 :: "byte list" where
  "zeros8 = [0, 0, 0, 0, 0, 0, 0, 0]"

definition empty_at :: "int \<Rightarrow> cirbuf" where
  "empty_at i = \<lparr>buf = Some zeros8, widx = i, ridx = i, cidx = - 1\<rparr>"

definition dev_east_only :: px where
  "dev_east_only = \<lparr>minor = 0, ewbuf = empty_at 0, webuf = empty_at 0, nopen = 1,
     east = Some 1, west = None, eastaccmode = 2050, westaccmode = 0\<rparr>"

definition dev_pair :: px where
  "dev_pair = \<lparr>minor = 0, ewbuf = empty_at 6, webuf = empty_at 0, nopen = 2,
     east = Some 1, west = Some 2, eastaccmode = 2, westaccmode = 2\<rparr>"

text \<open>
  The west side alone on a device that the east side has left: three bytes written by
  the west are waiting, and the east-to-west buffer carries the close marker of the
  east's release.
\<close>

definition dev_west_pending :: px where
  "dev_west_pending = \<lparr>minor = 0,
     ewbuf = \<lparr>buf = Some zeros8, widx = 5, ridx = 2, cidx = 5\<rparr>,
     webuf = \<lparr>buf = Some zeros8, widx = 3, ridx = 0, cidx = - 1\<rparr>,
     nopen = 1, east = None, west = Some 2, eastaccmode = 2, westaccmode = 2\<rparr>"

text \<open>
  Both sides open and the east-to-west buffer full: seven bytes are waiting, from
  index 6 round to index 4.
\<close>

definition dev_full :: px where
  "dev_full = \<lparr>minor = 0,
     ewbuf = \<lparr>buf = Some [10, 11, 12, 13, 14, 15, 16, 17], widx = 5, ridx = 6, cidx = - 1\<rparr>,
     webuf = empty_at 0,
     nopen = 2, east = Some 1, west = Some 2, eastaccmode = 2, westaccmode = 2\<rparr>"

text \<open>
  The west side alone, at the end of what the east side wrote before it left: the read
  cursor of the east-to-west buffer stands at the close marker.
\<close>

definition dev_eof :: px where
  "dev_eof = \<lparr>minor = 0,
     ewbuf = \<lparr>buf = Some zeros8, widx = 3, ridx = 3, cidx = 3\<rparr>,
     webuf = empty_at 0,
     nopen = 1, east = None, west = Some 2, eastaccmode = 2, westaccmode = 2\<rparr>"

text \<open>
  Both sides open after a write of length 0 by the east into the empty east-to-west
  buffer of \<open>dev_pair\<close>: the close marker stands at the cursors.
\<close>

definition dev_soft_eof :: px where
  "dev_soft_eof = \<lparr>minor = 0,
     ewbuf = \<lparr>buf = Some zeros8, widx = 6, ridx = 6, cidx = 6\<rparr>,
     webuf = empty_at 0,
     nopen = 2, east = Some 1, west = Some 2, eastaccmode = 2, westaccmode = 2\<rparr>"

text \<open>
  Both sides open and three bytes waiting in the east-to-west buffer, from index 6 round
  to index 0.
\<close>

definition dev_pending :: px where
  "dev_pending = \<lparr>minor = 0,
     ewbuf = \<lparr>buf = Some [10, 11, 12, 13, 14, 15, 16, 17], widx = 1, ridx = 6, cidx = - 1\<rparr>,
     webuf = empty_at 0,
     nopen = 2, east = Some 1, west = Some 2, eastaccmode = 2, westaccmode = 2\<rparr>"

text \<open>A ring of one byte, as the module gets with \<^verbatim>\<open>buffersize=1\<close>.\<close>

definition one_byte_ring :: cirbuf where
  "one_byte_ring = \<lparr>buf = Some [0], widx = 0, ridx = 0, cidx = - 1\<rparr>"

text \<open>
  A fresh device after two opens: the first finds no memory and fails, the second, by
  file 1, succeeds.
\<close>

definition dev_leaked :: px where
  "dev_leaked =
     snd (proxy_open (Some zeros8) (Some zeros8)
            (snd (proxy_open None None (px_init 0) 9 2)) 1 2)"

subsection \<open>The device after the allocations of an open\<close>

text \<open>The device after the two allocations of a successful open.\<close>

definition opened :: "byte list option \<Rightarrow> byte list option \<Rightarrow> px \<Rightarrow> px" where
  "opened km_ew km_we dev =
     dev\<lparr>nopen := nopen dev + 1,
         ewbuf := (ewbuf dev)\<lparr>buf := (if buf (ewbuf dev) = None then km_ew else buf (ewbuf dev))\<rparr>,
         webuf := (webuf dev)\<lparr>buf := (if buf (webuf dev) = None then km_we else buf (webuf dev))\<rparr>\<rparr>"

section \<open>Lemmas on rings\<close>

lemma mod_wrap: "(c::nat) \<le> x \<Longrightarrow> x < 2 * c \<Longrightarrow> x mod c = x - c"
  by (simp add: le_mod_geq)

lemma ring_read:
  assumes "r < length b" "k \<le> length b"
  shows "take (min k (length b - r)) (drop r b) @ take (k - (length b - r)) b = ring r k b"
proof (rule nth_equalityI)
  show "length (take (min k (length b - r)) (drop r b) @ take (k - (length b - r)) b) = length (ring r k b)"
    using assms by (auto simp: ring_def)
next
  fix i assume "i < length (take (min k (length b - r)) (drop r b) @ take (k - (length b - r)) b)"
  then have i: "i < k" using assms by auto
  show "(take (min k (length b - r)) (drop r b) @ take (k - (length b - r)) b) ! i = ring r k b ! i"
  proof (cases "r + i < length b")
    case True
    then have "i < length b - r" by simp
    then show ?thesis using True i assms by (simp add: ring_def nth_append)
  next
    case False
    then have "(r + i) mod length b = r + i - length b"
      using assms i by (intro mod_wrap) auto
    moreover have "i - (length b - r) = r + i - length b" "\<not> i < length b - r"
      using False assms by simp_all
    ultimately show ?thesis using False i assms by (simp add: ring_def nth_append min_def)
  qed
qed

lemma ring_put_nowrap:
  assumes "w + n \<le> length b"
  shows "ring_put w n buff b = take w b @ take n buff @ drop (w + n) b"
proof -
  have "min n (length b - w) = n" using assms by simp
  then show ?thesis by (simp add: ring_put_def Let_def)
qed

lemma ring_put_wrap:
  assumes "length b < w + n" "w < length b"
  shows "ring_put w n buff b =
     take (n - (length b - w)) (drop (length b - w) buff) @
     drop (n - (length b - w)) (take w b @ take (length b - w) buff)"
proof -
  have "min n (length b - w) = length b - w" "n - (length b - w) > 0" using assms by simp_all
  then show ?thesis using assms by (simp add: ring_put_def Let_def)
qed

lemma ring_put_length:
  assumes "w < length b" "n \<le> length buff" "n \<le> length b"
  shows "length (ring_put w n buff b) = length b"
proof (cases "w + n \<le> length b")
  case True
  then show ?thesis using assms by (simp add: ring_put_nowrap)
next
  case False
  then show ?thesis using assms by (simp add: ring_put_wrap)
qed

lemma ring_put_nth:
  assumes "w < length b" "n \<le> length buff" "n \<le> length b" "j < length b"
  shows "ring_put w n buff b ! j =
     (if w \<le> j \<and> j < w + n then buff ! (j - w)
      else if j + length b < w + n then buff ! (j + length b - w) else b ! j)"
proof (cases "w + n \<le> length b")
  case True
  then have "ring_put w n buff b = take w b @ take n buff @ drop (w + n) b"
    by (rule ring_put_nowrap)
  then show ?thesis using assms True by (auto simp: nth_append min_def)
next
  case False
  define c where "c = length b - w"
  define m where "m = n - c"
  define X where "X = take m (drop c buff)"
  define Y where "Y = drop m (take w b)"
  define Z where "Z = take c buff"
  have cm: "c + w = length b" "m + c = n" "0 < m" "m \<le> w"
    using assms False by (auto simp: c_def m_def)
  have lens: "length X = m" "length Y = w - m" "length Z = c"
    using assms cm by (auto simp: X_def Y_def Z_def)
  have "ring_put w n buff b = take m (drop c buff) @ drop m (take w b @ take c buff)"
    unfolding c_def m_def using assms False by (intro ring_put_wrap) auto
  also have "drop m (take w b @ take c buff) = Y @ Z"
    using cm assms by (simp add: Y_def Z_def)
  finally have eq: "ring_put w n buff b = X @ Y @ Z"
    by (simp add: X_def)
  consider "j < m" | "m \<le> j" "j < w" | "w \<le> j" by linarith
  then show ?thesis
  proof cases
    case 1
    then have "(X @ Y @ Z) ! j = buff ! (c + j)"
      using lens assms cm by (simp add: nth_append X_def)
    moreover have "c + j = j + length b - w" "\<not> w \<le> j" "j + length b < w + n"
      using cm 1 by auto
    ultimately show ?thesis by (simp add: eq)
  next
    case 2
    then have "j - m < w - m" "m + (j - m) = j" by auto
    then have "(X @ Y @ Z) ! j = b ! j"
      using 2 lens assms cm by (simp add: nth_append Y_def)
    moreover have "\<not> w \<le> j" "\<not> j + length b < w + n"
      using cm 2 by auto
    ultimately show ?thesis by (simp add: eq)
  next
    case 3
    then have "\<not> j < m" "\<not> j - m < w - m" "j - m - (w - m) = j - w"
      using cm by auto
    then have "(X @ Y @ Z) ! j = Z ! (j - w)"
      using lens by (simp add: nth_append)
    also have "\<dots> = buff ! (j - w)"
      using 3 assms cm by (simp add: Z_def)
    finally show ?thesis using 3 assms cm by (simp add: eq)
  qed
qed

lemma ring_put_ring:
  assumes "r < length b" "a + n < length b" "n \<le> length buff" "w = (r + a) mod length b"
  shows "ring r (a + n) (ring_put w n buff b) = ring r a b @ take n buff"
proof (rule nth_equalityI)
  show "length (ring r (a + n) (ring_put w n buff b)) = length (ring r a b @ take n buff)"
    using assms by (simp add: ring_def)
next
  fix i assume "i < length (ring r (a + n) (ring_put w n buff b))"
  then have i: "i < a + n" by (simp add: ring_def)
  define C where "C = length b"
  define j where "j = (r + i) mod C"
  have pos: "0 < C" using assms by (cases b) (simp_all add: C_def)
  have w: "w < C" using assms pos by (simp add: C_def)
  have j: "j < C" using pos by (simp add: j_def)
  have len: "length (ring_put w n buff b) = length b"
    using assms w by (intro ring_put_length) (auto simp: C_def)
  have bounds: "r < C" "a + n < C" using assms by (auto simp: C_def)
  have wv: "(r + a < C \<and> w = r + a) \<or> (C \<le> r + a \<and> w + C = r + a)"
  proof (cases "r + a < C")
    case True
    then show ?thesis using assms by (simp add: C_def)
  next
    case False
    then have "(r + a) mod C = r + a - C" using bounds by (intro mod_wrap) auto
    then show ?thesis using False assms by (simp add: C_def)
  qed
  have jv: "(r + i < C \<and> j = r + i) \<or> (C \<le> r + i \<and> j + C = r + i)"
  proof (cases "r + i < C")
    case True
    then show ?thesis by (simp add: j_def)
  next
    case False
    then have "(r + i) mod C = r + i - C" using bounds i by (intro mod_wrap) auto
    then show ?thesis using False by (simp add: j_def)
  qed
  have "ring r (a + n) (ring_put w n buff b) ! i = ring_put w n buff b ! j"
    using i by (simp add: ring_def len j_def C_def)
  also have "\<dots> = (if w \<le> j \<and> j < w + n then buff ! (j - w)
      else if j + C < w + n then buff ! (j + C - w) else b ! j)"
    unfolding C_def using assms w j by (intro ring_put_nth) (auto simp: C_def)
  also have "\<dots> = (if i < a then b ! j else buff ! (i - a))"
  proof (cases "i < a")
    case True
    have "\<not> (w \<le> j \<and> j < w + n) \<and> \<not> (j + C < w + n)"
      apply (insert wv jv True bounds i)
      apply (elim disjE conjE)
         apply simp_all
      done
    then show ?thesis using True by auto
  next
    case False
    have "(w \<le> j \<and> j < w + n \<and> j - w = i - a) \<or>
          (\<not> (w \<le> j \<and> j < w + n) \<and> j + C < w + n \<and> j + C - w = i - a)"
      apply (insert wv jv False bounds i)
      apply (elim disjE conjE)
         apply simp_all
      done
    then show ?thesis using False by auto
  qed
  also have "\<dots> = (ring r a b @ take n buff) ! i"
    using i assms by (auto simp: ring_def nth_append j_def C_def)
  finally show "ring r (a + n) (ring_put w n buff b) ! i = (ring r a b @ take n buff) ! i" .
qed

section \<open>One write and one read on a buffer\<close>

lemma int_of_size_t_small: "count < 2 ^ 31 \<Longrightarrow> int_of_size_t count = int count"
  unfolding int_of_size_t_def
  by (simp add: signed_of_nat signed_take_bit_int_eq_self)

lemma free_nat:
  assumes "w < L" "r < L"
  shows "(if int r - 1 - int w < 0 then int r - 1 - int w + int L else int r - 1 - int w)
         = int ((r + L - 1 - w) mod L)"
proof (cases "w < r")
  case True
  then have "(r + L - 1 - w) mod L = r - 1 - w"
    using assms by (subst mod_wrap) auto
  then show ?thesis using True by auto
next
  case False
  then have "(r + L - 1 - w) mod L = r + L - 1 - w"
    using assms by (intro mod_less) auto
  then show ?thesis using False assms by auto
qed

lemma advance_nat:
  assumes "w < L" "n < L"
  shows "int w + int n - (if int w + int n > int L - 1 then int L else 0) = int ((w + n) mod L)"
proof (cases "w + n < L")
  case True
  then show ?thesis by auto
next
  case False
  then have "(w + n) mod L = w + n - L" using assms by (intro mod_wrap) auto
  then show ?thesis using False by auto
qed

lemma copy_in_first:
  assumes "w < length b" "c \<le> length buff" "c \<le> length b - w"
  shows "(if int c \<noteq> 0 then copy_from_user (Some b) (int w) buff 0 (int c) else Returns (Some b))
         = Returns (Some (take w b @ take c buff @ drop (w + c) b))"
  using assms by (auto simp: copy_from_user_def nat_add_distrib)

lemma copy_in_second:
  assumes "c \<le> n" "n \<le> length buff" "n - c \<le> length b1"
  shows "(if int n - int c > 0 then copy_from_user (Some b1) 0 buff (int c) (int n - int c)
          else Returns (Some b1))
         = Returns (Some (if n - c > 0 then take (n - c) (drop c buff) @ drop (n - c) b1 else b1))"
  using assms by (auto simp: copy_from_user_def nat_diff_distrib)

lemma cirbuf_write_nat:
  assumes p: "buf p = Some b" "widx p = int w" "ridx p = int r" "C = int (length b)"
    and wr: "w < length b" "r < length b"
    and nf: "\<not> is_full C p" and small: "length buff < 2 ^ 31"
  defines "n \<equiv> min (length buff) ((r + length b - 1 - w) mod length b)"
  shows "cirbuf_write C 2 p fl buff sig =
     (Returns (int n),
      p\<lparr>buf := Some (ring_put w n buff b), widx := int ((w + n) mod length b),
        cidx := (if buff = [] then int w else cidx p)\<rparr>)"
proof -
  define L where "L = length b"
  define c where "c = min n (L - w)"
  define b1 where "b1 = take w b @ take c buff @ drop (w + c) b"
  have pos: "0 < L" using wr unfolding L_def by linarith
  then have "(r + L - 1 - w) mod L < L" by simp
  then have nL: "n < L" by (simp add: n_def L_def min.strict_coboundedI2)
  have x1: "(if int r - 1 - int w < 0 then int r - 1 - int w + int L else int r - 1 - int w)
         = int ((r + L - 1 - w) mod L)"
    using wr unfolding L_def by (rule free_nat)
  have x2: "min (int_of_size_t (length buff)) (int ((r + L - 1 - w) mod L)) = int n"
    using small by (simp add: int_of_size_t_small n_def L_def)
  have x3: "min (int n) (int L - int w) = int c"
    using wr by (simp add: c_def L_def of_nat_diff)
  have x4: "(if int c \<noteq> 0 then copy_from_user (Some b) (int w) buff 0 (int c) else Returns (Some b))
         = Returns (Some b1)"
    unfolding b1_def using wr by (intro copy_in_first) (auto simp: c_def n_def L_def)
  have x5: "(if int n - int c > 0 then copy_from_user (Some b1) 0 buff (int c) (int n - int c)
          else Returns (Some b1))
         = Returns (Some (if n - c > 0 then take (n - c) (drop c buff) @ drop (n - c) b1 else b1))"
    using wr nL by (intro copy_in_second) (auto simp: c_def n_def b1_def L_def)
  have x6: "(if n - c > 0 then take (n - c) (drop c buff) @ drop (n - c) b1 else b1) = ring_put w n buff b"
    by (simp add: ring_put_def Let_def c_def b1_def L_def)
  have x7: "int w + int n - (if int w + int n > int L - 1 then int L else 0) = int ((w + n) mod L)"
    using wr nL unfolding L_def by (intro advance_nat) auto
  have x8: "n = 0" if "buff = []" using that by (simp add: n_def)
  show ?thesis
    using nf
    apply (simp only: cirbuf_write_def Let_def p)
    apply (simp only: x1 [unfolded L_def] x2 [unfolded L_def] x3 [unfolded L_def] x4 [unfolded L_def] x5 [unfolded L_def]
        x6 x7 [unfolded L_def] outcome.case simp_thms if_False if_True refl)
    apply (auto simp: x8 wr)
    done
qed

lemma avail_nat:
  assumes "w < L" "r < L"
  shows "(if int w - int r < 0 then int w - int r + int L else int w - int r)
         = int ((w + L - r) mod L)"
proof (cases "w < r")
  case True
  then have "(w + L - r) mod L = w + L - r"
    using assms by (intro mod_less) auto
  then show ?thesis using True assms by auto
next
  case False
  then have "(w + L - r) mod L = w - r"
    using assms by (subst mod_wrap) auto
  then show ?thesis using False by auto
qed

lemma copy_out_first:
  assumes "r < length b" "c \<le> length b - r"
  shows "(if int c \<noteq> 0 then copy_to_user (Some b) (int r) (int c) else Returns [])
         = Returns (take c (drop r b))"
  using assms by (auto simp: copy_to_user_def)

lemma copy_out_second:
  assumes "c \<le> n" "n \<le> length b"
  shows "(if int n - int c > 0 then copy_to_user (Some b) 0 (int n - int c) else Returns [])
         = Returns (take (n - c) b)"
  using assms by (auto simp: copy_to_user_def nat_diff_distrib)

lemma cirbuf_read_nat:
  assumes p: "buf p = Some b" "widx p = int w" "ridx p = int r" "C = int (length b)"
    and wr: "w < length b" "r < length b"
    and ne: "ridx p \<noteq> cidx p" "ridx p \<noteq> widx p" and small: "count < 2 ^ 31"
  defines "n \<equiv> min count ((w + length b - r) mod length b)"
  shows "cirbuf_read C p fl count sig =
     (Returns (int n, ring r n b), p\<lparr>ridx := int ((r + n) mod length b)\<rparr>)"
proof -
  define L where "L = length b"
  define c where "c = min n (L - r)"
  have pos: "0 < L" using wr unfolding L_def by linarith
  then have "(w + L - r) mod L < L" by simp
  then have nL: "n < L" by (simp add: n_def L_def min.strict_coboundedI2)
  have x1: "(if int w - int r < 0 then int w - int r + int L else int w - int r)
         = int ((w + L - r) mod L)"
    using wr unfolding L_def by (rule avail_nat)
  have x2: "min (int_of_size_t count) (int ((w + L - r) mod L)) = int n"
    using small by (simp add: int_of_size_t_small n_def L_def)
  have x3: "(if int L - int r < int n then int L - int r else int n) = int c"
    using wr by (auto simp: c_def L_def of_nat_diff min_def)
  have x4: "(if int c \<noteq> 0 then copy_to_user (Some b) (int r) (int c) else Returns [])
         = Returns (take c (drop r b))"
    using wr by (intro copy_out_first) (auto simp: c_def L_def)
  have x5: "(if int n - int c > 0 then copy_to_user (Some b) 0 (int n - int c) else Returns [])
         = Returns (take (n - c) b)"
    using nL by (intro copy_out_second) (auto simp: c_def L_def)
  have "n - c = n - (L - r)" by (simp add: c_def)
  then have x6: "take c (drop r b) @ take (n - c) b = ring r n b"
    using ring_read [of r b n] wr nL by (simp add: c_def L_def)
  have x7: "int r + int n - (if int r + int n > int L - 1 then int L else 0) = int ((r + n) mod L)"
    using wr nL unfolding L_def by (intro advance_nat) auto
  show ?thesis
    using ne
    apply (simp only: cirbuf_read_def Let_def p)
    apply (simp only: x1 [unfolded L_def] x2 [unfolded L_def] x3 [unfolded L_def] x4 [unfolded L_def] x5 [unfolded L_def]
        x6 x7 [unfolded L_def] outcome.case simp_thms if_False if_True refl)
    done
qed

lemma used_cases:
  assumes "(w::nat) < L" "r < L"
  shows "(r \<le> w \<and> (w + L - r) mod L = w - r) \<or> (w < r \<and> (w + L - r) mod L = w + L - r)"
proof (cases "w < r")
  case True
  then have "(w + L - r) mod L = w + L - r" using assms by (intro mod_less) auto
  then show ?thesis using True by simp
next
  case False
  then have "(w + L - r) mod L = w + L - r - L" using assms by (intro mod_wrap) auto
  then show ?thesis using False by simp
qed

lemma used_less:
  assumes "(w::nat) < L" "r < L"
  shows "(w + L - r) mod L < L"
  using assms by (intro mod_less_divisor) linarith

lemma used_widx:
  assumes "(w::nat) < L" "r < L"
  shows "w = (r + (w + L - r) mod L) mod L"
proof -
  from used_cases [OF assms] show ?thesis
  proof (elim disjE conjE)
    assume "r \<le> w" "(w + L - r) mod L = w - r"
    then show ?thesis using assms by simp
  next
    assume a: "w < r" "(w + L - r) mod L = w + L - r"
    then have "(r + (w + L - r)) mod L = r + (w + L - r) - L"
      using assms by (intro mod_wrap) auto
    then show ?thesis using a assms by simp
  qed
qed

lemma free_used:
  assumes "(w::nat) < L" "r < L"
  shows "(r + L - 1 - w) mod L = L - 1 - (w + L - r) mod L"
proof -
  from used_cases [OF assms] show ?thesis
  proof (elim disjE conjE)
    assume a: "r \<le> w" "(w + L - r) mod L = w - r"
    then have "(r + L - 1 - w) mod L = r + L - 1 - w" using assms by (intro mod_less) auto
    then show ?thesis using a assms by simp
  next
    assume a: "w < r" "(w + L - r) mod L = w + L - r"
    then have "(r + L - 1 - w) mod L = r + L - 1 - w - L" using assms by (intro mod_wrap) auto
    then show ?thesis using a assms by simp
  qed
qed

lemma used_after_write:
  assumes "(w::nat) < L" "r < L" "(w + L - r) mod L + n < L"
  shows "((w + n) mod L + L - r) mod L = (w + L - r) mod L + n"
proof -
  define a where "a = (w + L - r) mod L"
  have w: "w = (r + a) mod L" unfolding a_def using assms(1,2) by (rule used_widx)
  have an: "a + n < L" using assms by (simp add: a_def)
  have "(w + n) mod L = (r + a + n) mod L"
    using w by (metis mod_add_left_eq)
  moreover have "((r + a + n) mod L + L - r) mod L = a + n"
  proof (cases "r + a + n < L")
    case True
    then have "((r + a + n) mod L + L - r) = a + n + L" by simp
    then show ?thesis using an by simp
  next
    case False
    then have "(r + a + n) mod L = r + a + n - L" using assms an by (intro mod_wrap) auto
    then have "((r + a + n) mod L + L - r) = a + n" using False by simp
    then show ?thesis using an by simp
  qed
  ultimately show ?thesis by (simp add: a_def)
qed

lemma used_after_read:
  assumes "(w::nat) < L" "r < L" "n \<le> (w + L - r) mod L"
  shows "(w + L - (r + n) mod L) mod L = (w + L - r) mod L - n"
proof -
  from used_cases [OF assms(1,2)] show ?thesis
  proof (elim disjE conjE)
    assume a: "r \<le> w" "(w + L - r) mod L = w - r"
    then have rn: "r + n \<le> w" using assms by simp
    then have "(r + n) mod L = r + n" using assms by simp
    moreover have "(w + L - (r + n)) mod L = w + L - (r + n) - L"
      using rn assms by (intro mod_wrap) auto
    ultimately show ?thesis using a rn by simp
  next
    assume a: "w < r" "(w + L - r) mod L = w + L - r"
    show ?thesis
    proof (cases "r + n < L")
      case True
      then have "(w + L - (r + n)) mod L = w + L - (r + n)" using a assms by (intro mod_less) auto
      then show ?thesis using a True by simp
    next
      case False
      then have m: "(r + n) mod L = r + n - L" using assms a by (intro mod_wrap) auto
      have "(w + L - (r + n - L)) mod L = w + L - (r + n - L) - L"
        using False assms a by (intro mod_wrap) auto
      then show ?thesis using a False m assms by simp
    qed
  qed
qed

lemma ring_length: "length (ring r k b) = k"
  by (simp add: ring_def)

lemma ring_take: "n \<le> a \<Longrightarrow> take n (ring r a b) = ring r n b"
  by (simp add: ring_def take_map min_def)

lemma ring_drop: "drop n (ring r a b) = ring ((r + n) mod length b) (a - n) b"
proof (rule nth_equalityI)
  show "length (drop n (ring r a b)) = length (ring ((r + n) mod length b) (a - n) b)"
    by (simp add: ring_def)
next
  fix i assume "i < length (drop n (ring r a b))"
  then have i: "i < a - n" by (simp add: ring_def)
  have "((r + n) mod length b + i) mod length b = (r + (n + i)) mod length b"
    by (simp add: mod_add_left_eq add.assoc)
  moreover have "n + i < a" using i by simp
  ultimately show "drop n (ring r a b) ! i = ring ((r + n) mod length b) (a - n) b ! i"
    using i by (simp add: ring_def)
qed

lemma cirbuf_okE:
  assumes "cirbuf_ok C p"
  obtains b w r where "buf p = Some b" "widx p = int w" "ridx p = int r" "C = int (length b)"
    "w < length b" "r < length b"
proof -
  from assms obtain b where b: "buf p = Some b" "int (length b) = C"
    by (auto simp: cirbuf_ok_def split: option.splits)
  from assms have "0 \<le> widx p" "widx p < C" "0 \<le> ridx p" "ridx p < C"
    by (auto simp: cirbuf_ok_def)
  then have "widx p = int (nat (widx p))" "ridx p = int (nat (ridx p))"
    "nat (widx p) < length b" "nat (ridx p) < length b"
    using b by auto
  then show thesis using b that by metis
qed

lemma used_int:
  assumes "(w::nat) < L" "r < L"
  shows "(int w - int r) mod int L = int ((w + L - r) mod L)"
proof -
  have "int ((w + L - r) mod L) = (int w - int r + int L) mod int L"
    using assms by (simp add: zmod_int of_nat_diff algebra_simps)
  then show ?thesis by simp
qed

lemma free_int:
  assumes "(w::nat) < L" "r < L"
  shows "(int r - int w - 1) mod int L = int ((r + L - 1 - w) mod L)"
proof -
  have "int ((r + L - 1 - w) mod L) = (int r - int w - 1 + int L) mod int L"
    using assms by (simp add: zmod_int of_nat_diff algebra_simps)
  then show ?thesis by simp
qed

lemma contents_nat:
  assumes "buf p = Some b" "widx p = int w" "ridx p = int r" "w < length b" "r < length b"
  shows "contents p = ring r ((w + length b - r) mod length b) b"
  using assms by (simp add: contents_def used_int)

lemma is_full_nat:
  assumes "widx p = int w" "ridx p = int r" "w < L" "r < L"
  shows "is_full (int L) p \<longleftrightarrow> (w + L - r) mod L = L - 1"
proof -
  from used_cases [OF assms(3,4)] show ?thesis
    using assms by (auto simp: is_full_def)
qed

lemma contents_length:
  assumes "cirbuf_ok C p"
  shows "int (length (contents p)) = (widx p - ridx p) mod C"
proof -
  from assms obtain b w r where p: "buf p = Some b" "widx p = int w" "ridx p = int r"
    "C = int (length b)" "w < length b" "r < length b" by (rule cirbuf_okE)
  then show ?thesis by (simp add: contents_nat ring_length used_int)
qed

lemma space_contents:
  assumes "cirbuf_ok C p"
  shows "(ridx p - widx p - 1) mod C = C - 1 - int (length (contents p))"
proof -
  from assms obtain b w r where p: "buf p = Some b" "widx p = int w" "ridx p = int r"
    "C = int (length b)" "w < length b" "r < length b" by (rule cirbuf_okE)
  have lt: "(w + length b - r) mod length b < length b" using p by (intro used_less)
  have "(ridx p - widx p - 1) mod C = int ((r + length b - 1 - w) mod length b)"
    using p by (simp only: free_int)
  also have "\<dots> = int (length b - 1 - (w + length b - r) mod length b)"
    using p by (simp only: free_used)
  also have "\<dots> = C - 1 - int ((w + length b - r) mod length b)"
    using p lt by (simp add: of_nat_diff)
  also have "(w + length b - r) mod length b = length (contents p)"
    using p by (simp add: contents_nat ring_length)
  finally show ?thesis .
qed

lemma is_full_contents:
  assumes "cirbuf_ok C p"
  shows "is_full C p \<longleftrightarrow> int (length (contents p)) = C - 1"
proof -
  from assms obtain b w r where p: "buf p = Some b" "widx p = int w" "ridx p = int r"
    "C = int (length b)" "w < length b" "r < length b" by (rule cirbuf_okE)
  have "0 < length b" using p by linarith
  then show ?thesis using p is_full_nat [of p w r "length b"]
    by (auto simp: contents_nat ring_length of_nat_diff)
qed

lemma write_spec:
  fixes fl :: int and sig :: bool
  assumes ok: "cirbuf_ok C p" and nf: "\<not> is_full C p" and small: "length buff < 2 ^ 31"
  defines "x \<equiv> min (int (length buff)) ((ridx p - widx p - 1) mod C)"
  defines "p' \<equiv> snd (cirbuf_write C 2 p fl buff sig)"
  shows "fst (cirbuf_write C 2 p fl buff sig) = Returns x"
    and "cirbuf_ok C p'"
    and "contents p' = contents p @ take (nat x) buff"
    and "widx p' = (widx p + x) mod C"
    and "ridx p' = ridx p"
    and "cidx p' = (if buff = [] then widx p else cidx p)"
proof -
  from ok obtain b w r where p: "buf p = Some b" "widx p = int w" "ridx p = int r"
    "C = int (length b)" "w < length b" "r < length b" by (rule cirbuf_okE)
  define L where "L = length b"
  define a where "a = (w + L - r) mod L"
  define n where "n = min (length buff) ((r + L - 1 - w) mod L)"
  have pos: "0 < L" using p unfolding L_def by linarith
  have aL: "a < L" unfolding a_def using p by (intro used_less) (simp_all add: L_def)
  have fr: "(r + L - 1 - w) mod L = L - 1 - a"
    unfolding a_def using p by (intro free_used) (simp_all add: L_def)
  have an: "a + n < L" using aL fr by (simp add: n_def)
  have xn: "x = int n"
    using p by (simp add: x_def n_def L_def free_int)
  have w: "cirbuf_write C 2 p fl buff sig =
     (Returns (int n),
      p\<lparr>buf := Some (ring_put w n buff b), widx := int ((w + n) mod L),
        cidx := (if buff = [] then int w else cidx p)\<rparr>)"
    unfolding n_def L_def using p nf small by (intro cirbuf_write_nat) auto
  have p': "p' = p\<lparr>buf := Some (ring_put w n buff b), widx := int ((w + n) mod L),
        cidx := (if buff = [] then int w else cidx p)\<rparr>"
    by (simp add: p'_def w)
  have nb: "n \<le> length buff" "n \<le> L" using an by (simp_all add: n_def)
  have len: "length (ring_put w n buff b) = L"
    using p nb by (simp add: ring_put_length L_def)
  show "fst (cirbuf_write C 2 p fl buff sig) = Returns x" by (simp add: w xn)
  show "cirbuf_ok C p'"
    using p pos by (simp add: p' cirbuf_ok_def len L_def)
  show "widx p' = (widx p + x) mod C"
    using p by (simp add: p' xn zmod_int L_def)
  show "ridx p' = ridx p" by (simp add: p')
  show "cidx p' = (if buff = [] then widx p else cidx p)" using p by (simp add: p')
  have "contents p' = ring r (((w + n) mod L + L - r) mod L) (ring_put w n buff b)"
    using p pos len
    by (subst contents_nat [where b = "ring_put w n buff b" and w = "(w + n) mod L" and r = r])
       (simp_all add: p' L_def)
  also have "((w + n) mod L + L - r) mod L = a + n"
    unfolding a_def using p an by (intro used_after_write) (simp_all add: L_def a_def)
  also have "ring r (a + n) (ring_put w n buff b) = ring r a b @ take n buff"
    using p an nb unfolding a_def L_def by (intro ring_put_ring used_widx) simp_all
  also have "ring r a b = contents p"
    using p by (simp add: contents_nat a_def L_def)
  finally show "contents p' = contents p @ take (nat x) buff" by (simp add: xn)
qed

lemma read_spec:
  fixes fl :: int and sig :: bool
  assumes ok: "cirbuf_ok C p" and ne: "ridx p \<noteq> cidx p" "ridx p \<noteq> widx p"
    and small: "count < 2 ^ 31"
  defines "n \<equiv> min count (length (contents p))"
  defines "p' \<equiv> snd (cirbuf_read C p fl count sig)"
  shows "fst (cirbuf_read C p fl count sig) = Returns (int n, take n (contents p))"
    and "cirbuf_ok C p'"
    and "contents p' = drop n (contents p)"
    and "ridx p' = (ridx p + int n) mod C"
    and "widx p' = widx p"
    and "cidx p' = cidx p"
    and "buf p' = buf p"
proof -
  from ok obtain b w r where p: "buf p = Some b" "widx p = int w" "ridx p = int r"
    "C = int (length b)" "w < length b" "r < length b" by (rule cirbuf_okE)
  define L where "L = length b"
  define a where "a = (w + L - r) mod L"
  have pos: "0 < L" using p unfolding L_def by linarith
  have aL: "a < L" unfolding a_def using p by (intro used_less) (simp_all add: L_def)
  have c: "contents p = ring r a b"
    using p by (simp add: contents_nat a_def L_def)
  have n: "n = min count a" by (simp add: n_def c ring_length)
  have rd: "cirbuf_read C p fl count sig =
     (Returns (int n, ring r n b), p\<lparr>ridx := int ((r + n) mod L)\<rparr>)"
    unfolding n a_def L_def using p ne small by (intro cirbuf_read_nat) auto
  have p': "p' = p\<lparr>ridx := int ((r + n) mod L)\<rparr>"
    by (simp add: p'_def rd)
  have na: "n \<le> a" by (simp add: n)
  show "fst (cirbuf_read C p fl count sig) = Returns (int n, take n (contents p))"
    using na by (simp add: rd c ring_take)
  show "cirbuf_ok C p'"
    using p pos by (simp add: p' cirbuf_ok_def L_def)
  show "ridx p' = (ridx p + int n) mod C"
    using p by (simp add: p' zmod_int L_def)
  show "widx p' = widx p" "cidx p' = cidx p" "buf p' = buf p" by (simp_all add: p')
  have "contents p' = ring ((r + n) mod L) ((w + L - (r + n) mod L) mod L) b"
    using p pos
    by (subst contents_nat [where b = b and w = w and r = "(r + n) mod L"])
       (simp_all add: p' L_def)
  also have "(w + L - (r + n) mod L) mod L = a - n"
    unfolding a_def using p na by (intro used_after_read) (simp_all add: L_def a_def)
  also have "ring ((r + n) mod L) (a - n) b = drop n (ring r a b)"
    by (simp add: ring_drop L_def)
  finally show "contents p' = drop n (contents p)" by (simp add: c)
qed


section \<open>Calls on a device\<close>

lemma getbuf_setbuf: "getbuf d (setbuf d' p dev) = (if d = d' then p else getbuf d dev)"
  by (cases d; cases d') simp_all

lemma setbuf_fields:
  "east (setbuf d p dev) = east dev" "west (setbuf d p dev) = west dev"
  "nopen (setbuf d p dev) = nopen dev"
  "eastaccmode (setbuf d p dev) = eastaccmode dev"
  "westaccmode (setbuf d p dev) = westaccmode dev"
  by (cases d; simp)+

lemma setbuf_getbuf: "setbuf d (getbuf d dev) dev = dev"
  by (cases d) simp_all

lemma setbuf_setbuf: "setbuf d q (setbuf d p dev) = setbuf d q dev"
  by (cases d) simp_all

lemma dir_setbuf:
  "wdir (setbuf d p dev) filp = wdir dev filp" "rdir (setbuf d p dev) filp = rdir dev filp"
  by (simp_all add: wdir_def rdir_def setbuf_fields)

lemma peer_connected:
  assumes "open_count_ok dev" "wdir dev filp = Some d"
  shows "nopen dev = 2 \<longleftrightarrow> peer dev filp \<noteq> None"
  using assms by (auto simp: open_count_ok_def wdir_def peer_def split: if_splits)

lemma proxy_write_dir:
  assumes "wdir dev filp = Some d"
  shows "proxy_write C dev filp fl buff sig =
     (fst (cirbuf_write C (nopen dev) (getbuf d dev) fl buff sig),
      setbuf d (snd (cirbuf_write C (nopen dev) (getbuf d dev) fl buff sig)) dev)"
  using assms by (auto simp: wdir_def proxy_write_def split: if_splits prod.splits)

lemma proxy_read_dir:
  assumes "rdir dev filp = Some d"
  shows "proxy_read C dev filp fl count sig =
     (fst (cirbuf_read C (getbuf d dev) fl count sig),
      setbuf d (snd (cirbuf_read C (getbuf d dev) fl count sig)) dev)"
  using assms by (auto simp: rdir_def proxy_read_def split: if_splits prod.splits)

lemma cirbuf_write_waits:
  assumes "n_open \<noteq> 2 \<or> is_full C p"
  shows "cirbuf_write C n_open p fl buff sig =
     ((if fl AND O_NONBLOCK \<noteq> 0 then Fails EWOULDBLOCK
       else if sig then Fails ERESTARTSYS else Sleeps), p)"
  using assms by (auto simp: cirbuf_write_def)

lemma cirbuf_write_ridx: "ridx (snd (cirbuf_write C n_open p fl buff sig)) = ridx p"
proof (cases "n_open \<noteq> 2 \<or> is_full C p")
  case True
  then show ?thesis by (simp add: cirbuf_write_waits)
next
  case False
  then show ?thesis
    by (simp add: cirbuf_write_def Let_def split: outcome.split split del: if_split)
qed

lemma cirbuf_write_cidx:
  assumes "buff \<noteq> []"
  shows "cidx (snd (cirbuf_write C n_open p fl buff sig)) = cidx p"
proof (cases "n_open \<noteq> 2 \<or> is_full C p")
  case True
  then show ?thesis by (simp add: cirbuf_write_waits)
next
  case False
  then show ?thesis using assms
    by (simp add: cirbuf_write_def Let_def split: outcome.split split del: if_split)
qed

lemma cirbuf_read_eof:
  assumes "ridx p = cidx p"
  shows "cirbuf_read C p fl count sig = (Returns (0, []), p)"
  using assms by (simp add: cirbuf_read_def)

lemma cirbuf_read_waits:
  assumes "ridx p \<noteq> cidx p" "ridx p = widx p"
  shows "cirbuf_read C p fl count sig =
     ((if fl AND O_NONBLOCK \<noteq> 0 then Fails EWOULDBLOCK
       else if sig then Fails ERESTARTSYS else Sleeps), p)"
  using assms by (auto simp: cirbuf_read_def)

lemma cirbuf_read_cidx: "cidx (snd (cirbuf_read C p fl count sig)) = cidx p"
proof (cases "ridx p = cidx p")
  case True
  then show ?thesis by (simp add: cirbuf_read_eof)
next
  case False
  show ?thesis
  proof (cases "ridx p = widx p")
    case True
    with False show ?thesis by (simp add: cirbuf_read_waits)
  next
    case False
    with \<open>ridx p \<noteq> cidx p\<close> show ?thesis
      by (simp add: cirbuf_read_def Let_def split: outcome.split split del: if_split)
  qed
qed

lemma cirbuf_read_widx: "widx (snd (cirbuf_read C p fl count sig)) = widx p"
proof (cases "ridx p = cidx p")
  case True
  then show ?thesis by (simp add: cirbuf_read_eof)
next
  case False
  show ?thesis
  proof (cases "ridx p = widx p")
    case True
    with False show ?thesis by (simp add: cirbuf_read_waits)
  next
    case False
    with \<open>ridx p \<noteq> cidx p\<close> show ?thesis
      by (simp add: cirbuf_read_def Let_def split: outcome.split split del: if_split)
  qed
qed

lemma proxy_write_none:
  "wdir dev filp = None \<Longrightarrow> proxy_write C dev filp fl buff sig = (Returns 0, dev)"
  by (auto simp: wdir_def proxy_write_def split: if_splits)

lemma proxy_read_none:
  "rdir dev filp = None \<Longrightarrow> proxy_read C dev filp fl count sig = (Returns (0, []), dev)"
  by (auto simp: rdir_def proxy_read_def split: if_splits)

lemma proxy_write_cidx:
  assumes "buff \<noteq> []"
  shows "cidx (getbuf d' (snd (proxy_write C dev filp fl buff sig))) = cidx (getbuf d' dev)"
proof (cases "wdir dev filp")
  case None
  then show ?thesis by (simp add: proxy_write_none)
next
  case (Some d)
  then show ?thesis using assms
    by (simp add: proxy_write_dir getbuf_setbuf cirbuf_write_cidx)
qed

lemma proxy_read_cidx:
  "cidx (getbuf d' (snd (proxy_read C dev filp fl count sig))) = cidx (getbuf d' dev)"
proof (cases "rdir dev filp")
  case None
  then show ?thesis by (simp add: proxy_read_none)
next
  case (Some d)
  then show ?thesis
    by (simp add: proxy_read_dir getbuf_setbuf cirbuf_read_cidx)
qed

lemma poll_bits:
  "(0::int) AND POLLOUT = 0" "(0::int) AND POLLIN = 0"
  "(POLLOUT OR POLLWRNORM) AND POLLOUT \<noteq> 0" "(POLLOUT OR POLLWRNORM) AND POLLIN = 0"
  "(0 OR (POLLIN OR POLLRDNORM)) AND POLLOUT = 0" "(0 OR (POLLIN OR POLLRDNORM)) AND POLLIN \<noteq> 0"
  "((POLLOUT OR POLLWRNORM) OR (POLLIN OR POLLRDNORM)) AND POLLOUT \<noteq> 0"
  "((POLLOUT OR POLLWRNORM) OR (POLLIN OR POLLRDNORM)) AND POLLIN \<noteq> 0"
  by (simp_all add: POLLIN_def POLLOUT_def POLLRDNORM_def POLLWRNORM_def)

lemma poll_mask:
  "((if w then POLLOUT OR POLLWRNORM else 0) AND POLLOUT \<noteq> 0) = w"
  "((if w then POLLOUT OR POLLWRNORM else 0) AND POLLIN \<noteq> 0) = False"
  "(((if w then POLLOUT OR POLLWRNORM else 0) OR (POLLIN OR POLLRDNORM)) AND POLLOUT \<noteq> 0) = w"
  "(((if w then POLLOUT OR POLLWRNORM else 0) OR (POLLIN OR POLLRDNORM)) AND POLLIN \<noteq> 0) = True"
  using poll_bits by (cases w; simp)+

lemma proxy_poll_west:
  assumes "Some filp = west dev"
  shows "proxy_poll C dev filp fl =
    (let m = (if \<not> is_full C (webuf dev) \<and> nopen dev = 2 \<and> cidx (webuf dev) \<noteq> widx (webuf dev)
                 \<and> eastaccmode dev AND O_ACCMODE \<noteq> O_WRONLY \<and> fl AND O_ACCMODE \<noteq> O_RDONLY
              then POLLOUT OR POLLWRNORM else 0)
     in if (widx (ewbuf dev) \<noteq> ridx (ewbuf dev) \<or> ridx (ewbuf dev) = cidx (ewbuf dev))
           \<and> eastaccmode dev AND O_ACCMODE \<noteq> O_RDONLY \<and> fl AND O_ACCMODE \<noteq> O_WRONLY
        then m OR (POLLIN OR POLLRDNORM) else m)"
  using assms by (simp add: proxy_poll_def)

lemma proxy_poll_east:
  assumes "Some filp = east dev" "Some filp \<noteq> west dev"
  shows "proxy_poll C dev filp fl =
    (let m = (if \<not> is_full C (ewbuf dev) \<and> nopen dev = 2 \<and> cidx (ewbuf dev) \<noteq> widx (ewbuf dev)
                 \<and> westaccmode dev AND O_ACCMODE \<noteq> O_WRONLY \<and> fl AND O_ACCMODE \<noteq> O_RDONLY
              then POLLOUT OR POLLWRNORM else 0)
     in if (widx (webuf dev) \<noteq> ridx (webuf dev) \<or> ridx (webuf dev) = cidx (webuf dev))
           \<and> westaccmode dev AND O_ACCMODE \<noteq> O_RDONLY \<and> fl AND O_ACCMODE \<noteq> O_WRONLY
        then m OR (POLLIN OR POLLRDNORM) else m)"
  using assms by (simp add: proxy_poll_def)

lemma proxy_open_busy:
  "2 \<le> nopen dev \<Longrightarrow> proxy_open km_ew km_we dev filp fl = (Fails EBUSY, dev)"
  by (simp add: proxy_open_def)

lemma proxy_open_ok:
  assumes "nopen dev < 2" "buf (ewbuf dev) \<noteq> None \<or> km_ew \<noteq> None"
    "buf (webuf dev) \<noteq> None \<or> km_we \<noteq> None"
  shows "proxy_open km_ew km_we dev filp fl =
     (let dev3 = opened km_ew km_we dev in
      if east dev = None then
        (Returns 0,
         dev3\<lparr>east := Some filp,
              webuf := (webuf dev3)\<lparr>ridx := widx (webuf dev3), cidx := - 1\<rparr>,
              ewbuf := (ewbuf dev3)\<lparr>cidx := - 1\<rparr>,
              eastaccmode := fl\<rparr>)
      else if west dev = None then
        (Returns 0,
         dev3\<lparr>west := Some filp,
              ewbuf := (ewbuf dev3)\<lparr>ridx := widx (ewbuf dev3), cidx := - 1\<rparr>,
              webuf := (webuf dev3)\<lparr>cidx := - 1\<rparr>,
              westaccmode := fl\<rparr>)
      else (Returns 0, dev3))"
  using assms
  by (cases "buf (ewbuf dev)"; cases "buf (webuf dev)"; cases km_ew; cases km_we)
     (simp_all add: proxy_open_def opened_def Let_def)

section \<open>Runs of calls\<close>

lemma is_full_mod:
  assumes "cirbuf_ok C p" "2 \<le> C"
  shows "is_full C p \<longleftrightarrow> (ridx p - widx p) mod C = 1"
proof -
  have r: "0 \<le> widx p" "widx p < C" "0 \<le> ridx p" "ridx p < C"
    using assms by (simp_all add: cirbuf_ok_def)
  show ?thesis
  proof (cases "0 \<le> ridx p - widx p")
    case True
    then have "(ridx p - widx p) mod C = ridx p - widx p"
      using r by (intro mod_pos_pos_trivial) auto
    then show ?thesis using True r assms by (auto simp: is_full_def)
  next
    case False
    have "(ridx p - widx p) mod C = (ridx p - widx p + C) mod C" by simp
    also have "\<dots> = ridx p - widx p + C"
      using False r by (intro mod_pos_pos_trivial) auto
    finally show ?thesis using False r assms by (auto simp: is_full_def)
  qed
qed

lemma contents_le:
  assumes "cirbuf_ok C p"
  shows "int (length (contents p)) \<le> C - 1"
proof -
  have "0 < C" using assms by (simp add: cirbuf_ok_def)
  then have "(widx p - ridx p) mod C < C" by simp
  then show ?thesis using contents_length [OF assms] by simp
qed

lemma contents_empty:
  assumes "cirbuf_ok C p"
  shows "contents p = [] \<longleftrightarrow> ridx p = widx p"
proof -
  have r: "0 \<le> widx p" "widx p < C" "0 \<le> ridx p" "ridx p < C"
    using assms by (simp_all add: cirbuf_ok_def)
  have "contents p = [] \<longleftrightarrow> (widx p - ridx p) mod C = 0"
    using contents_length [OF assms] by auto
  also have "\<dots> \<longleftrightarrow> ridx p = widx p"
  proof (cases "0 \<le> widx p - ridx p")
    case True
    then have "(widx p - ridx p) mod C = widx p - ridx p"
      using r by (intro mod_pos_pos_trivial) auto
    then show ?thesis by auto
  next
    case False
    have "(widx p - ridx p) mod C = (widx p - ridx p + C) mod C" by simp
    also have "\<dots> = widx p - ridx p + C"
      using False r by (intro mod_pos_pos_trivial) auto
    finally show ?thesis using False r by auto
  qed
  finally show ?thesis .
qed

lemma write_step:
  assumes "wdir dev wr = Some d" "nopen dev = 2" "cirbuf_ok C (getbuf d dev)" "C \<le> 2 ^ 31"
    and "x \<noteq> []" "int (length (contents (getbuf d dev)) + length x) \<le> C - 1"
  shows "\<exists>q. proxy_write C dev wr fl x sig = (Returns (int (length x)), setbuf d q dev) \<and>
           cirbuf_ok C q \<and> contents q = contents (getbuf d dev) @ x \<and>
           ridx q = ridx (getbuf d dev) \<and> cidx q = cidx (getbuf d dev)"
proof -
  define p where "p = getbuf d dev"
  define q where "q = snd (cirbuf_write C 2 p fl x sig)"
  have ok: "cirbuf_ok C p" using assms by (simp add: p_def)
  have len: "int (length (contents p)) + int (length x) \<le> C - 1"
    using assms by (simp add: p_def)
  have "0 < length x" using assms by simp
  then have "int (length (contents p)) \<noteq> C - 1" using len by linarith
  then have nf: "\<not> is_full C p" using is_full_contents [OF ok] by simp
  have "int (length x) < 2 ^ 31" using len assms(4) by linarith
  then have small: "length x < 2 ^ 31" by simp
  have sp: "min (int (length x)) ((ridx p - widx p - 1) mod C) = int (length x)"
    using space_contents [OF ok] len by simp
  note ws = write_spec [OF ok nf small, of fl sig, folded q_def, unfolded sp]
  have "proxy_write C dev wr fl x sig = (Returns (int (length x)), setbuf d q dev)"
    using assms(1,2) ws(1)
    by (simp add: proxy_write_dir q_def p_def prod_eq_iff)
  moreover have "contents q = contents p @ x" using ws(3) by simp
  moreover have "cidx q = cidx p" using ws(6) assms(5) by simp
  ultimately show ?thesis using ws(2,5) unfolding p_def by blast
qed

lemma write_all_spec:
  assumes "wdir dev wr = Some d" "nopen dev = 2" "cirbuf_ok C (getbuf d dev)" "C \<le> 2 ^ 31"
    and "\<forall>x \<in> set xs. x \<noteq> []"
    and "int (length (contents (getbuf d dev)) + length (concat xs)) \<le> C - 1"
  shows "\<exists>q. write_all C dev wr fl xs sig
              = (map (\<lambda>x. Returns (int (length x))) xs, setbuf d q dev) \<and>
           cirbuf_ok C q \<and> contents q = contents (getbuf d dev) @ concat xs \<and>
           ridx q = ridx (getbuf d dev) \<and> cidx q = cidx (getbuf d dev)"
  using assms
proof (induction xs arbitrary: dev)
  case Nil
  then show ?case
    by (intro exI [of _ "getbuf d dev"]) (simp add: setbuf_getbuf)
next
  case (Cons x xs)
  have x: "x \<noteq> []" "int (length (contents (getbuf d dev)) + length x) \<le> C - 1"
    using Cons.prems by simp_all
  from write_step [OF Cons.prems(1-4) x, of fl sig]
  obtain q1 where q1: "proxy_write C dev wr fl x sig = (Returns (int (length x)), setbuf d q1 dev)"
    "cirbuf_ok C q1" "contents q1 = contents (getbuf d dev) @ x"
    "ridx q1 = ridx (getbuf d dev)" "cidx q1 = cidx (getbuf d dev)"
    by blast
  define dev1 where "dev1 = setbuf d q1 dev"
  have d1: "wdir dev1 wr = Some d" "nopen dev1 = 2" "cirbuf_ok C (getbuf d dev1)"
    "\<forall>x \<in> set xs. x \<noteq> []"
    "int (length (contents (getbuf d dev1)) + length (concat xs)) \<le> C - 1"
    using Cons.prems q1
    by (simp_all add: dev1_def dir_setbuf setbuf_fields getbuf_setbuf)
  from Cons.IH [OF d1(1-3) Cons.prems(4) d1(4,5)]
  obtain q2 where q2: "write_all C dev1 wr fl xs sig
              = (map (\<lambda>x. Returns (int (length x))) xs, setbuf d q2 dev1)"
    "cirbuf_ok C q2" "contents q2 = contents (getbuf d dev1) @ concat xs"
    "ridx q2 = ridx (getbuf d dev1)" "cidx q2 = cidx (getbuf d dev1)"
    by blast
  have "write_all C dev wr fl (x # xs) sig
      = (map (\<lambda>x. Returns (int (length x))) (x # xs), setbuf d q2 dev)"
    using q1(1) q2(1) by (simp add: dev1_def setbuf_setbuf)
  moreover have "contents q2 = contents (getbuf d dev) @ concat (x # xs)"
    using q2(3) q1(3) by (simp add: dev1_def getbuf_setbuf)
  moreover have "ridx q2 = ridx (getbuf d dev)" "cidx q2 = cidx (getbuf d dev)"
    using q2(4,5) q1(4,5) by (simp_all add: dev1_def getbuf_setbuf)
  ultimately show ?case using q2(2) by blast
qed

lemma read_all:
  assumes "rdir dev rd = Some d" "cirbuf_ok C (getbuf d dev)"
    and "contents (getbuf d dev) \<noteq> []" "ridx (getbuf d dev) \<noteq> cidx (getbuf d dev)"
    and "count < 2 ^ 31"
  shows "fst (proxy_read C dev rd fl count sig)
           = Returns (int (min count (length (contents (getbuf d dev)))),
                      take count (contents (getbuf d dev)))"
    and "contents (getbuf d (snd (proxy_read C dev rd fl count sig)))
           = drop count (contents (getbuf d dev))"
proof -
  define p where "p = getbuf d dev"
  have ok: "cirbuf_ok C p" using assms by (simp add: p_def)
  have rw: "ridx p \<noteq> widx p" using contents_empty [OF ok] assms(3) by (simp add: p_def)
  have ne: "ridx p \<noteq> cidx p" using assms by (simp add: p_def)
  note rs = read_spec [OF ok ne rw assms(5), of fl sig]
  show "fst (proxy_read C dev rd fl count sig)
           = Returns (int (min count (length (contents (getbuf d dev)))),
                      take count (contents (getbuf d dev)))"
    using assms(1) rs(1) by (simp add: proxy_read_dir p_def min_def)
  show "contents (getbuf d (snd (proxy_read C dev rd fl count sig)))
           = drop count (contents (getbuf d dev))"
    using assms(1) rs(3) by (simp add: proxy_read_dir p_def getbuf_setbuf min_def)
qed

lemma wdir_cases:
  assumes "wdir dev wr = Some d"
  shows "(d = EW \<and> east dev = Some wr) \<or> (d = WE \<and> east dev \<noteq> Some wr \<and> west dev = Some wr)"
  using assms by (auto simp: wdir_def split: if_splits)

lemma rdir_cases:
  assumes "rdir dev rd = Some d"
  shows "(d = WE \<and> east dev = Some rd) \<or> (d = EW \<and> east dev \<noteq> Some rd \<and> west dev = Some rd)"
  using assms by (auto simp: rdir_def split: if_splits)

lemma proxy_release_dir:
  assumes "wdir dev wr = Some d" "rdir dev rd = Some d"
  shows "fst (proxy_release dev wr) = Returns 0 \<and>
     getbuf d (snd (proxy_release dev wr)) = (getbuf d dev)\<lparr>cidx := widx (getbuf d dev)\<rparr> \<and>
     rdir (snd (proxy_release dev wr)) rd = Some d \<and>
     nopen (snd (proxy_release dev wr)) = nopen dev - 1"
proof -
  consider (e) "d = EW" "east dev = Some wr" "east dev \<noteq> Some rd" "west dev = Some rd"
    | (w) "d = WE" "east dev \<noteq> Some wr" "west dev = Some wr" "east dev = Some rd"
    using wdir_cases [OF assms(1)] rdir_cases [OF assms(2)] by blast
  then show ?thesis
  proof cases
    case e
    then have "proxy_release dev wr =
        (Returns 0, dev\<lparr>nopen := nopen dev - 1, east := None,
                         ewbuf := (ewbuf dev)\<lparr>cidx := widx (ewbuf dev)\<rparr>\<rparr>)"
      by (simp add: proxy_release_def Let_def)
    then show ?thesis using e by (simp add: rdir_def)
  next
    case w
    then have "proxy_release dev wr =
        (Returns 0, dev\<lparr>nopen := nopen dev - 1, west := None,
                         webuf := (webuf dev)\<lparr>cidx := widx (webuf dev)\<rparr>\<rparr>)"
      by (simp add: proxy_release_def Let_def)
    then show ?thesis using w by (simp add: rdir_def)
  qed
qed

lemma contents_cidx: "contents (p\<lparr>cidx := c\<rparr>) = contents p"
  by (simp add: contents_def split: option.split)

lemma cirbuf_ok_cidx: "cirbuf_ok C (p\<lparr>cidx := c\<rparr>) = cirbuf_ok C p"
  by (simp add: cirbuf_ok_def)

lemma proxy_read_eof:
  assumes "rdir dev rd = Some d" "ridx (getbuf d dev) = cidx (getbuf d dev)"
  shows "proxy_read C dev rd fl count sig = (Returns (0, []), dev)"
  using assms by (simp add: proxy_read_dir cirbuf_read_eof setbuf_getbuf)

lemma cirbuf_read_ridx_eof:
  "ridx p = cidx p \<Longrightarrow> ridx (snd (cirbuf_read C p fl count sig)) = ridx p"
  by (simp add: cirbuf_read_eof)

lemma eof_kept_by_read:
  assumes "ridx (getbuf d dev) = cidx (getbuf d dev)"
  shows "ridx (getbuf d (snd (proxy_read C dev f fl count sig)))
       = cidx (getbuf d (snd (proxy_read C dev f fl count sig)))"
proof (cases "rdir dev f")
  case None
  then show ?thesis using assms by (simp add: proxy_read_none)
next
  case (Some d')
  show ?thesis
  proof (cases "d' = d")
    case True
    then show ?thesis using Some assms by (simp add: proxy_read_eof)
  next
    case False
    then show ?thesis using Some assms by (simp add: proxy_read_dir getbuf_setbuf)
  qed
qed

lemma eof_kept_by_write:
  assumes "ridx (getbuf d dev) = cidx (getbuf d dev)" "buff \<noteq> []"
  shows "ridx (getbuf d (snd (proxy_write C dev f fl buff sig)))
       = cidx (getbuf d (snd (proxy_write C dev f fl buff sig)))"
proof (cases "wdir dev f")
  case None
  then show ?thesis using assms by (simp add: proxy_write_none)
next
  case (Some d')
  then show ?thesis using assms
    by (auto simp: proxy_write_dir getbuf_setbuf cirbuf_write_ridx cirbuf_write_cidx)
qed

lemma write_release_read:
  fixes fl fl1 fl2 :: int and sig sg1 sg2 :: bool
  assumes "wdir dev wr = Some d" "rdir dev rd = Some d" "nopen dev = 2"
    and "cirbuf_ok C (getbuf d dev)" "C \<le> 2 ^ 31"
    and "ridx (getbuf d dev) = widx (getbuf d dev)"
    and "buff \<noteq> []" "int (length buff) \<le> C - 1"
    and "1 \<le> k" "k < 2 ^ 31" "1 \<le> k'" "k' < 2 ^ 31"
  defines "dev1 \<equiv> snd (proxy_write C dev wr fl buff sig)"
  defines "dev2 \<equiv> snd (proxy_release dev1 wr)"
  defines "dev3 \<equiv> snd (proxy_read C dev2 rd fl1 k sg1)"
  shows "fst (proxy_write C dev wr fl buff sig) = Returns (int (length buff))"
    and "fst (proxy_release dev1 wr) = Returns 0"
    and "fst (proxy_read C dev2 rd fl1 k sg1) = Returns (int (min k (length buff)), take k buff)"
    and "length buff \<le> k \<Longrightarrow> proxy_read C dev3 rd fl2 k' sg2 = (Returns (0, []), dev3)"
    and "k < length buff \<Longrightarrow> fst (proxy_read C dev3 rd fl2 k' sg2)
           = Returns (int (min k' (length buff - k)), take k' (drop k buff))"
proof -
  have e: "contents (getbuf d dev) = []"
    using contents_empty [OF assms(4)] assms(6) by simp
  then have l: "int (length (contents (getbuf d dev)) + length buff) \<le> C - 1"
    using assms(8) by simp
  from write_step [OF assms(1,3,4,5,7) l, of fl sig]
  obtain q1 where q1: "proxy_write C dev wr fl buff sig = (Returns (int (length buff)), setbuf d q1 dev)"
    "cirbuf_ok C q1" "contents q1 = buff"
    using e by auto
  have dev1: "dev1 = setbuf d q1 dev" by (simp add: dev1_def q1(1))
  show "fst (proxy_write C dev wr fl buff sig) = Returns (int (length buff))"
    by (simp add: q1(1))
  have d1: "wdir dev1 wr = Some d" "rdir dev1 rd = Some d" "getbuf d dev1 = q1"
    using assms(1,2) by (simp_all add: dev1 dir_setbuf getbuf_setbuf)
  from proxy_release_dir [OF d1(1,2)]
  have rel: "fst (proxy_release dev1 wr) = Returns 0"
    "getbuf d (snd (proxy_release dev1 wr)) = (getbuf d dev1)\<lparr>cidx := widx (getbuf d dev1)\<rparr>"
    "rdir (snd (proxy_release dev1 wr)) rd = Some d"
    by simp_all
  show "fst (proxy_release dev1 wr) = Returns 0" by (rule rel(1))
  define q2 where "q2 = q1\<lparr>cidx := widx q1\<rparr>"
  have d2: "rdir dev2 rd = Some d" "getbuf d dev2 = q2"
    using rel(2,3) by (simp_all add: dev2_def d1(3) q2_def)
  have q2: "cirbuf_ok C q2" "contents q2 = buff" "cidx q2 = widx q2" "ridx q2 \<noteq> widx q2"
  proof -
    show ok2: "cirbuf_ok C q2" using q1(2) by (simp add: q2_def cirbuf_ok_cidx)
    show c2: "contents q2 = buff" using q1(3) by (simp add: q2_def contents_cidx)
    show "cidx q2 = widx q2" by (simp add: q2_def)
    show "ridx q2 \<noteq> widx q2" using contents_empty [OF ok2] c2 assms(7) by simp
  qed
  have r2: "cirbuf_ok C (getbuf d dev2)" "contents (getbuf d dev2) \<noteq> []"
    "ridx (getbuf d dev2) \<noteq> cidx (getbuf d dev2)"
    using q2 assms(7) by (simp_all add: d2(2))
  note rd2 = read_all [OF d2(1) r2 assms(10), of fl1 sg1]
  show "fst (proxy_read C dev2 rd fl1 k sg1) = Returns (int (min k (length buff)), take k buff)"
    using rd2(1) q2(2) by (simp add: d2(2))
  define q3 where "q3 = snd (cirbuf_read C q2 fl1 k sg1)"
  have dev3: "dev3 = setbuf d q3 dev2"
    using d2 by (simp add: dev3_def proxy_read_dir q3_def)
  have d3: "rdir dev3 rd = Some d" "getbuf d dev3 = q3"
    using d2(1) by (simp_all add: dev3 dir_setbuf getbuf_setbuf)
  have rs: "cirbuf_ok C q3" "contents q3 = drop k buff" "cidx q3 = widx q3"
  proof -
    note s = read_spec [OF q2(1) _ q2(4) assms(10), of fl1 sg1, folded q3_def]
    have ne: "ridx q2 \<noteq> cidx q2" using q2(3,4) by simp
    show "cirbuf_ok C q3" using s(2) [OF ne] .
    show "contents q3 = drop k buff" using s(3) [OF ne] q2(2) by (simp add: min_def)
    show "cidx q3 = widx q3" using s(5) [OF ne] s(6) [OF ne] q2(3) by simp
  qed
  show "proxy_read C dev3 rd fl2 k' sg2 = (Returns (0, []), dev3)" if "length buff \<le> k"
  proof -
    have "contents q3 = []" using rs(2) that by simp
    then have "ridx q3 = cidx q3" using contents_empty [OF rs(1)] rs(3) by simp
    then have "ridx (getbuf d dev3) = cidx (getbuf d dev3)" by (simp add: d3(2))
    then show ?thesis by (rule proxy_read_eof [OF d3(1)])
  qed
  show "fst (proxy_read C dev3 rd fl2 k' sg2)
           = Returns (int (min k' (length buff - k)), take k' (drop k buff))" if "k < length buff"
  proof -
    have ne3: "contents q3 \<noteq> []" using rs(2) that by simp
    then have "ridx q3 \<noteq> cidx q3" using contents_empty [OF rs(1)] rs(3) by simp
    then have r3: "cirbuf_ok C (getbuf d dev3)" "contents (getbuf d dev3) \<noteq> []"
      "ridx (getbuf d dev3) \<noteq> cidx (getbuf d dev3)"
      using rs ne3 by (simp_all add: d3(2))
    show ?thesis
      using read_all(1) [OF d3(1) r3 assms(12), of fl2 sg2] rs(2) by (simp add: d3(2))
  qed
qed

section \<open>Calls after the writer has left\<close>

text \<open>
  Once the writing side of a buffer is free and the read cursor stands at the close
  marker, no read, write or release changes either fact.
\<close>

lemma writer_side_setbuf: "writer_side d (setbuf d' q dev) = writer_side d dev"
  by (cases d) (simp_all add: writer_side_def setbuf_fields)

lemma wdir_writer_side: "wdir dev f = Some d \<Longrightarrow> writer_side d dev = Some f"
  using wdir_cases [of dev f d] by (auto simp: writer_side_def)

lemma hard_eof_read:
  assumes "writer_side d dev = None" "ridx (getbuf d dev) = cidx (getbuf d dev)"
  shows "writer_side d (snd (proxy_read C dev f fl count sig)) = None \<and>
         ridx (getbuf d (snd (proxy_read C dev f fl count sig)))
           = cidx (getbuf d (snd (proxy_read C dev f fl count sig)))"
proof -
  have "writer_side d (snd (proxy_read C dev f fl count sig)) = None"
  proof (cases "rdir dev f")
    case None
    then show ?thesis using assms by (simp add: proxy_read_none)
  next
    case (Some d')
    then show ?thesis using assms by (simp add: proxy_read_dir writer_side_setbuf)
  qed
  then show ?thesis using eof_kept_by_read [OF assms(2)] by simp
qed

lemma hard_eof_write:
  assumes "writer_side d dev = None" "ridx (getbuf d dev) = cidx (getbuf d dev)"
  shows "writer_side d (snd (proxy_write C dev f fl buff sig)) = None \<and>
         ridx (getbuf d (snd (proxy_write C dev f fl buff sig)))
           = cidx (getbuf d (snd (proxy_write C dev f fl buff sig)))"
proof (cases "wdir dev f")
  case None
  then show ?thesis using assms by (simp add: proxy_write_none)
next
  case (Some d')
  then have "writer_side d' dev = Some f" by (rule wdir_writer_side)
  then have "d \<noteq> d'" using assms(1) by auto
  then show ?thesis using Some assms
    by (simp add: proxy_write_dir writer_side_setbuf getbuf_setbuf)
qed

lemma hard_eof_release:
  assumes "writer_side d dev = None" "ridx (getbuf d dev) = cidx (getbuf d dev)"
  shows "writer_side d (snd (proxy_release dev f)) = None \<and>
         ridx (getbuf d (snd (proxy_release dev f))) = cidx (getbuf d (snd (proxy_release dev f)))"
proof (cases "east dev = Some f")
  case True
  then have r: "proxy_release dev f =
        (Returns 0, dev\<lparr>nopen := nopen dev - 1, east := None,
                         ewbuf := (ewbuf dev)\<lparr>cidx := widx (ewbuf dev)\<rparr>\<rparr>)"
    by (simp add: proxy_release_def Let_def)
  have "d = WE" using True assms(1) by (cases d) (simp_all add: writer_side_def)
  then show ?thesis using assms by (simp add: r writer_side_def)
next
  case False
  show ?thesis
  proof (cases "west dev = Some f")
    case True
    then have r: "proxy_release dev f =
        (Returns 0, dev\<lparr>nopen := nopen dev - 1, west := None,
                         webuf := (webuf dev)\<lparr>cidx := widx (webuf dev)\<rparr>\<rparr>)"
      using False by (simp add: proxy_release_def Let_def)
    have "d = EW" using True assms(1) by (cases d) (simp_all add: writer_side_def)
    then show ?thesis using assms by (simp add: r writer_side_def)
  next
    case nw: False
    then have r: "proxy_release dev f = (Returns 0, dev\<lparr>nopen := nopen dev - 1\<rparr>)"
      using False by (simp add: proxy_release_def Let_def)
    show ?thesis using assms by (cases d) (simp_all add: r writer_side_def)
  qed
qed

lemma hard_eof_step:
  assumes "writer_side d dev = None" "ridx (getbuf d dev) = cidx (getbuf d dev)"
  shows "writer_side d (call_step C dev c) = None \<and>
         ridx (getbuf d (call_step C dev c)) = cidx (getbuf d (call_step C dev c))"
proof (cases c)
  case (CallRead f fl n sg)
  then show ?thesis using hard_eof_read [OF assms] by simp
next
  case (CallWrite f fl buff sg)
  then show ?thesis using hard_eof_write [OF assms] by simp
next
  case (CallRelease f)
  then show ?thesis using hard_eof_release [OF assms] by simp
qed

lemma hard_eof_run:
  assumes "writer_side d dev = None" "ridx (getbuf d dev) = cidx (getbuf d dev)"
  shows "writer_side d (run C dev calls) = None \<and>
         ridx (getbuf d (run C dev calls)) = cidx (getbuf d (run C dev calls))"
  using assms
proof (induction calls arbitrary: dev)
  case Nil
  then show ?case by (simp add: run_def)
next
  case (Cons c calls)
  from hard_eof_step [OF Cons.prems, of C c]
  have "writer_side d (call_step C dev c) = None"
    "ridx (getbuf d (call_step C dev c)) = cidx (getbuf d (call_step C dev c))"
    by simp_all
  from Cons.IH [OF this] show ?case by (simp add: run_def)
qed

text \<open>
  With the close marker at the write cursor, the reader gets the bytes that wait, and
  the end of file as soon as none is left.
\<close>

lemma drain_to_marker:
  fixes fla flb :: int and sga sgb :: bool
  assumes "rdir dev rd = Some d" "cirbuf_ok C (getbuf d dev)"
    and "cidx (getbuf d dev) = widx (getbuf d dev)" "contents (getbuf d dev) \<noteq> []"
    and "k < 2 ^ 31" "k' < 2 ^ 31"
  defines "c \<equiv> contents (getbuf d dev)"
  defines "dev3 \<equiv> snd (proxy_read C dev rd fla k sga)"
  shows "fst (proxy_read C dev rd fla k sga) = Returns (int (min k (length c)), take k c)"
    and "length c \<le> k \<Longrightarrow> proxy_read C dev3 rd flb k' sgb = (Returns (0, []), dev3)"
    and "k < length c \<Longrightarrow> fst (proxy_read C dev3 rd flb k' sgb)
           = Returns (int (min k' (length c - k)), take k' (drop k c))"
proof -
  define q where "q = getbuf d dev"
  have ok: "cirbuf_ok C q" and cw: "cidx q = widx q" and ne: "contents q \<noteq> []"
    using assms by (simp_all add: q_def)
  have rw: "ridx q \<noteq> widx q" using contents_empty [OF ok] ne by simp
  then have rc: "ridx q \<noteq> cidx q" using cw by simp
  have r2: "cirbuf_ok C (getbuf d dev)" "contents (getbuf d dev) \<noteq> []"
    "ridx (getbuf d dev) \<noteq> cidx (getbuf d dev)"
    using ok ne rc by (simp_all add: q_def)
  show "fst (proxy_read C dev rd fla k sga) = Returns (int (min k (length c)), take k c)"
    using read_all(1) [OF assms(1) r2 assms(5), of fla sga] by (simp add: c_def)
  define q3 where "q3 = snd (cirbuf_read C q fla k sga)"
  have dev3: "dev3 = setbuf d q3 dev"
    using assms(1) by (simp add: dev3_def proxy_read_dir q3_def q_def)
  have d3: "rdir dev3 rd = Some d" "getbuf d dev3 = q3"
    using assms(1) by (simp_all add: dev3 dir_setbuf getbuf_setbuf)
  note s = read_spec [OF ok rc rw assms(5), of fla sga, folded q3_def]
  have rs: "cirbuf_ok C q3" "contents q3 = drop k c" "cidx q3 = widx q3"
    using s(2) s(3) s(5) s(6) cw by (simp_all add: min_def c_def q_def)
  show "proxy_read C dev3 rd flb k' sgb = (Returns (0, []), dev3)" if "length c \<le> k"
  proof -
    have "contents q3 = []" using rs(2) that by simp
    then have "ridx q3 = cidx q3" using contents_empty [OF rs(1)] rs(3) by simp
    then have "ridx (getbuf d dev3) = cidx (getbuf d dev3)" by (simp add: d3(2))
    then show ?thesis by (rule proxy_read_eof [OF d3(1)])
  qed
  show "fst (proxy_read C dev3 rd flb k' sgb)
           = Returns (int (min k' (length c - k)), take k' (drop k c))" if "k < length c"
  proof -
    have ne3: "contents q3 \<noteq> []" using rs(2) that by simp
    then have "ridx q3 \<noteq> cidx q3" using contents_empty [OF rs(1)] rs(3) by simp
    then have r3: "cirbuf_ok C (getbuf d dev3)" "contents (getbuf d dev3) \<noteq> []"
      "ridx (getbuf d dev3) \<noteq> cidx (getbuf d dev3)"
      using rs ne3 by (simp_all add: d3(2))
    show ?thesis
      using read_all(1) [OF d3(1) r3 assms(6), of flb sgb] rs(2) by (simp add: d3(2))
  qed
qed

section \<open>Devices whose open count is the number of sides in use\<close>

text \<open>
  The driver takes \<open>nopen = 2\<close> to mean that the other side is connected.  On a device
  whose two sides hold different files and whose open count is the number of sides in
  use, \<^verbatim>\<open>proxy_poll\<close> reports writable (\<open>POLLOUT\<close>) exactly when the outbound
  buffer is not full, the peer is connected, the close marker of the outbound buffer is
  not at its write cursor, the file is not open read-only and the peer's recorded access
  mode is not write-only; it reports readable (\<open>POLLIN\<close>) exactly when the inbound
  buffer holds data or stands at its close marker, the file is not open write-only and
  the peer's recorded access mode is not read-only.
\<close>

lemma poll_readiness:
  assumes "wdir dev filp = Some dw" "rdir dev filp = Some dr" "east dev \<noteq> west dev"
    and "open_count_ok dev"
  shows "(proxy_poll buffersize dev filp f_flags AND POLLOUT \<noteq> 0) =
           (\<not> is_full buffersize (getbuf dw dev) \<and> peer dev filp \<noteq> None
            \<and> cidx (getbuf dw dev) \<noteq> widx (getbuf dw dev)
            \<and> f_flags AND O_ACCMODE \<noteq> O_RDONLY
            \<and> peer_accmode dev filp AND O_ACCMODE \<noteq> O_WRONLY) \<and>
         (proxy_poll buffersize dev filp f_flags AND POLLIN \<noteq> 0) =
           ((ridx (getbuf dr dev) \<noteq> widx (getbuf dr dev) \<or> ridx (getbuf dr dev) = cidx (getbuf dr dev))
            \<and> f_flags AND O_ACCMODE \<noteq> O_WRONLY
            \<and> peer_accmode dev filp AND O_ACCMODE \<noteq> O_RDONLY)"
proof (cases "Some filp = east dev")
  case True
  then have nw: "Some filp \<noteq> west dev" using assms(3) by auto
  have d: "dw = EW" "dr = WE" using True assms by (auto simp: wdir_def rdir_def)
  have pc: "nopen dev = 2 \<longleftrightarrow> peer dev filp \<noteq> None"
    by (rule peer_connected [OF assms(4) assms(1)])
  have pa: "peer_accmode dev filp = westaccmode dev" using True by (simp add: peer_accmode_def)
  show ?thesis
    unfolding proxy_poll_east [OF True nw] Let_def d getbuf.simps pa pc [symmetric]
    by (auto simp: poll_mask)
next
  case False
  then have w: "Some filp = west dev" using assms by (auto simp: wdir_def split: if_splits)
  have d: "dw = WE" "dr = EW" using False w assms by (auto simp: wdir_def rdir_def)
  have pc: "nopen dev = 2 \<longleftrightarrow> peer dev filp \<noteq> None"
    by (rule peer_connected [OF assms(4) assms(1)])
  have pa: "peer_accmode dev filp = eastaccmode dev" using False by (simp add: peer_accmode_def)
  show ?thesis
    unfolding proxy_poll_west [OF w] Let_def d getbuf.simps pa pc [symmetric]
    by (auto simp: poll_mask)
qed

lemma poll_readiness_example:
  "wdir dev_pair 1 = Some EW \<and> rdir dev_pair 1 = Some WE \<and> east dev_pair \<noteq> west dev_pair \<and>
   open_count_ok dev_pair \<and>
   (proxy_poll 8 dev_pair 1 2 AND POLLOUT \<noteq> 0) \<and>
   \<not> (proxy_poll 8 dev_pair 1 2 AND POLLIN \<noteq> 0)"
  using poll_readiness [where dev = dev_pair and filp = 1 and dw = EW and dr = WE
      and buffersize = 8 and f_flags = 2]
  by (simp add: dev_pair_def empty_at_def wdir_def rdir_def open_count_ok_def peer_def
      peer_accmode_def is_full_def O_ACCMODE_def O_RDONLY_def O_WRONLY_def)

text \<open>
  With \<^verbatim>\<open>O_NONBLOCK\<close> set: a read on a buffer that is empty and not at its close
  marker fails with \<open>EWOULDBLOCK\<close>; a write while the open count is not 2 or the
  buffer is full fails with \<open>EWOULDBLOCK\<close>; neither changes the device.  When the open
  count is the number of sides in use, a write with no peer on the other side fails so
  whether or not the buffer has room.
\<close>

lemma nonblocking_would_block:
  assumes "f_flags AND O_NONBLOCK \<noteq> 0"
  shows "(rdir dev filp = Some dr \<and> ridx (getbuf dr dev) = widx (getbuf dr dev)
            \<and> ridx (getbuf dr dev) \<noteq> cidx (getbuf dr dev)
          \<longrightarrow> proxy_read buffersize dev filp f_flags count sig = (Fails EWOULDBLOCK, dev)) \<and>
         (wdir dev filp = Some dw \<and> (nopen dev \<noteq> 2 \<or> is_full buffersize (getbuf dw dev))
          \<longrightarrow> proxy_write buffersize dev filp f_flags buff sig = (Fails EWOULDBLOCK, dev)) \<and>
         (wdir dev filp = Some dw \<and> open_count_ok dev \<and> peer dev filp = None
          \<longrightarrow> proxy_write buffersize dev filp f_flags buff sig = (Fails EWOULDBLOCK, dev))"
proof (intro conjI impI)
  assume "rdir dev filp = Some dr \<and> ridx (getbuf dr dev) = widx (getbuf dr dev)
            \<and> ridx (getbuf dr dev) \<noteq> cidx (getbuf dr dev)"
  then show "proxy_read buffersize dev filp f_flags count sig = (Fails EWOULDBLOCK, dev)"
    using assms by (simp add: proxy_read_dir cirbuf_read_waits setbuf_getbuf)
next
  assume "wdir dev filp = Some dw \<and> (nopen dev \<noteq> 2 \<or> is_full buffersize (getbuf dw dev))"
  then show "proxy_write buffersize dev filp f_flags buff sig = (Fails EWOULDBLOCK, dev)"
    using assms by (simp add: proxy_write_dir cirbuf_write_waits setbuf_getbuf)
next
  assume a: "wdir dev filp = Some dw \<and> open_count_ok dev \<and> peer dev filp = None"
  then have "nopen dev \<noteq> 2" using peer_connected [of dev filp dw] by simp
  then show "proxy_write buffersize dev filp f_flags buff sig = (Fails EWOULDBLOCK, dev)"
    using assms a by (simp add: proxy_write_dir cirbuf_write_waits setbuf_getbuf)
qed

lemma nonblocking_would_block_example:
  "(2050 :: int) AND O_NONBLOCK \<noteq> 0 \<and>
   rdir dev_east_only 1 = Some WE \<and> ridx (getbuf WE dev_east_only) = widx (getbuf WE dev_east_only) \<and>
   ridx (getbuf WE dev_east_only) \<noteq> cidx (getbuf WE dev_east_only) \<and>
   wdir dev_east_only 1 = Some EW \<and> nopen dev_east_only \<noteq> 2 \<and>
   \<not> is_full 8 (getbuf EW dev_east_only) \<and>
   open_count_ok dev_east_only \<and> peer dev_east_only 1 = None \<and>
   proxy_read 8 dev_east_only 1 2050 4 False = (Fails EWOULDBLOCK, dev_east_only) \<and>
   proxy_write 8 dev_east_only 1 2050 [65, 66] False = (Fails EWOULDBLOCK, dev_east_only)"
  using nonblocking_would_block [where f_flags = 2050 and dev = dev_east_only and filp = 1
      and dr = WE and dw = EW and buffersize = 8 and count = 4 and sig = False
      and buff = "[65, 66]"]
  by (simp add: dev_east_only_def empty_at_def rdir_def wdir_def peer_def open_count_ok_def
      is_full_def O_NONBLOCK_def)

text \<open>The state of \<open>dev_leaked\<close>: one side in use, and an open count of 2.\<close>

lemma dev_leaked_eq:
  "dev_leaked = \<lparr>minor = 0, ewbuf = empty_at 0, webuf = empty_at 0, nopen = 2,
     east = Some 1, west = None, eastaccmode = 2, westaccmode = 0\<rparr>"
  by (simp add: dev_leaked_def proxy_open_def px_init_def cirbuf_init_def empty_at_def Let_def)

section \<open>Properties of the driver\<close>

subsection \<open>What is written is what is read\<close>

text \<open>
  C1, as the claim is written: after any run of writes of total length \<open>L\<close> at most
  \<open>buffersize - 1\<close> into an empty buffer, a read of at least \<open>L\<close> bytes returns those
  \<open>L\<close> bytes.  It does not when the run starts with a write of length 0: that write
  sets the close marker at the read cursor, the byte written after it is stored, and
  the read returns 0 bytes, the end of file.
\<close>

theorem eof_mark_before_data_hides_it:
  "fst (write_all 8 dev_pair 1 2 [[], [65]] False) = [Returns 0, Returns 1] \<and>
   fst (proxy_read 8 (snd (write_all 8 dev_pair 1 2 [[], [65]] False)) 2 2 1 False)
     = Returns (0, [])"
  by (simp add: dev_pair_def empty_at_def zeros8_def proxy_write_def proxy_read_def
      cirbuf_write_def cirbuf_read_def is_full_def copy_from_user_def int_of_size_t_small
      Let_def)

text \<open>
  C1, amended.  Both sides are open, the buffer is empty and its close marker is not at
  the read cursor.  After one or more writes of at least one byte each, of total length
  \<open>L \<le> buffersize - 1\<close>, every write has returned its full length, and a read of
  \<open>count \<ge> L\<close> bytes on the same buffer returns exactly the \<open>L\<close> bytes in the order
  written and leaves the buffer empty; the cursors may stand anywhere, so the run may go
  round the end of the storage.  \<open>buffersize\<close> and \<open>count\<close> fit an \<^verbatim>\<open>int\<close>.
\<close>

theorem writes_then_read:
  assumes "wdir dev wr = Some d" "rdir dev rd = Some d" "nopen dev = 2"
    and "cirbuf_ok buffersize (getbuf d dev)" "buffersize \<le> 2 ^ 31"
    and "ridx (getbuf d dev) = widx (getbuf d dev)"
    and "cidx (getbuf d dev) \<noteq> ridx (getbuf d dev)"
    and "xs \<noteq> []" "\<forall>x \<in> set xs. x \<noteq> []"
    and "int (length (concat xs)) \<le> buffersize - 1"
    and "length (concat xs) \<le> count" "count < 2 ^ 31"
  shows "fst (write_all buffersize dev wr f_flags xs sig)
           = map (\<lambda>x. Returns (int (length x))) xs \<and>
         fst (proxy_read buffersize (snd (write_all buffersize dev wr f_flags xs sig)) rd fl count sg)
           = Returns (int (length (concat xs)), concat xs) \<and>
         contents (getbuf d (snd (proxy_read buffersize
              (snd (write_all buffersize dev wr f_flags xs sig)) rd fl count sg))) = []"
proof -
  have e: "contents (getbuf d dev) = []"
    using contents_empty [OF assms(4)] assms(6) by simp
  then have l: "int (length (contents (getbuf d dev)) + length (concat xs)) \<le> buffersize - 1"
    using assms(10) by simp
  from write_all_spec [OF assms(1,3,4,5,9) l, of f_flags sig]
  obtain q where q: "write_all buffersize dev wr f_flags xs sig
              = (map (\<lambda>x. Returns (int (length x))) xs, setbuf d q dev)"
    "cirbuf_ok buffersize q" "contents q = concat xs"
    "ridx q = ridx (getbuf d dev)" "cidx q = cidx (getbuf d dev)"
    using e by auto
  define dev1 where "dev1 = setbuf d q dev"
  have ne: "concat xs \<noteq> []" using assms(8,9) by (cases xs) auto
  have d1: "rdir dev1 rd = Some d" "cirbuf_ok buffersize (getbuf d dev1)"
    "contents (getbuf d dev1) \<noteq> []" "ridx (getbuf d dev1) \<noteq> cidx (getbuf d dev1)"
    using assms(2,7) q ne by (simp_all add: dev1_def dir_setbuf getbuf_setbuf)
  have c: "contents (getbuf d dev1) = concat xs"
    using q(3) by (simp add: dev1_def getbuf_setbuf)
  show ?thesis
    using read_all [OF d1 assms(12), of fl sg] assms(11)
    by (simp add: q(1) dev1_def [symmetric] c min_def)
qed

theorem writes_then_read_witness:
  "wdir dev_pair 1 = Some EW \<and> rdir dev_pair 2 = Some EW \<and> nopen dev_pair = 2 \<and>
   cirbuf_ok 8 (getbuf EW dev_pair) \<and> (8::int) \<le> 2 ^ 31 \<and>
   ridx (getbuf EW dev_pair) = widx (getbuf EW dev_pair) \<and>
   cidx (getbuf EW dev_pair) \<noteq> ridx (getbuf EW dev_pair) \<and>
   [[65, 66, 67], [68, 69 :: byte]] \<noteq> [] \<and>
   [65, 66, 67] \<noteq> ([] :: byte list) \<and> [68, 69] \<noteq> ([] :: byte list) \<and>
   int (length (concat [[65, 66, 67], [68, 69 :: byte]])) \<le> 8 - 1 \<and>
   length (concat [[65, 66, 67], [68, 69 :: byte]]) \<le> 16 \<and> (16::nat) < 2 ^ 31 \<and>
   fst (write_all 8 dev_pair 1 2 [[65, 66, 67], [68, 69]] False) = [Returns 3, Returns 2] \<and>
   fst (proxy_read 8 (snd (write_all 8 dev_pair 1 2 [[65, 66, 67], [68, 69]] False)) 2 2 16 False)
     = Returns (5, [65, 66, 67, 68, 69])"
  using writes_then_read [where dev = dev_pair and wr = 1 and rd = 2 and d = EW
      and buffersize = 8 and xs = "[[65, 66, 67], [68, 69]]" and count = 16
      and f_flags = 2 and sig = False and fl = 2 and sg = False]
  by (simp add: dev_pair_def empty_at_def zeros8_def wdir_def rdir_def cirbuf_ok_def)

subsection \<open>Full and empty\<close>

text \<open>
  C2, as the claim is written: for every buffer with both cursors inside the storage,
  \<^verbatim>\<open>is_full\<close> holds exactly when \<open>(ridx - widx) mod buffersize = 1\<close>.  It does not
  for \<open>buffersize = 1\<close>, a value that the module parameter admits: the ring of one
  byte with both cursors at 0 is empty, \<^verbatim>\<open>is_full\<close> holds of it, and
  \<open>(ridx - widx) mod 1\<close> is 0.
\<close>

theorem one_byte_ring_full_not_mod:
  "cirbuf_ok 1 one_byte_ring \<and> ridx one_byte_ring = widx one_byte_ring \<and>
   is_full 1 one_byte_ring \<and> (ridx one_byte_ring - widx one_byte_ring) mod 1 \<noteq> 1"
  by (simp add: cirbuf_ok_def is_full_def one_byte_ring_def)

text \<open>
  C2, amended.  For a buffer of \<open>buffersize \<ge> 2\<close> bytes with both cursors inside the
  storage: it never holds more than \<open>buffersize - 1\<close> bytes, and a write into the empty
  buffer transfers up to \<open>buffersize - 1\<close> bytes; it is empty exactly when
  \<open>ridx = widx\<close>; \<^verbatim>\<open>is_full\<close> holds exactly when
  \<open>(ridx - widx) mod buffersize = 1\<close>, which is exactly when \<open>buffersize - 1\<close> bytes
  are waiting.  On the full buffer a write of one byte or more does not transfer
  anything: with \<^verbatim>\<open>O_NONBLOCK\<close> it fails with \<open>EWOULDBLOCK\<close>, otherwise the caller
  sleeps, or is sent back with \<open>ERESTARTSYS\<close> when a signal is pending.  Once the
  reader has taken one byte, a write of one byte succeeds at once.
\<close>

theorem full_and_empty:
  assumes "wdir dev wr = Some d" "rdir dev rd = Some d" "nopen dev = 2"
    and "cirbuf_ok buffersize (getbuf d dev)" "2 \<le> buffersize"
  shows "let p = getbuf d dev in
     int (length (contents p)) \<le> buffersize - 1 \<and>
     (contents p = [] \<longleftrightarrow> ridx p = widx p) \<and>
     (is_full buffersize p \<longleftrightarrow> (ridx p - widx p) mod buffersize = 1) \<and>
     (is_full buffersize p \<longleftrightarrow> int (length (contents p)) = buffersize - 1) \<and>
     (ridx p = widx p \<and> length buff < 2 ^ 31 \<longrightarrow>
        fst (proxy_write buffersize dev wr f_flags buff sig)
          = Returns (min (int (length buff)) (buffersize - 1))) \<and>
     (is_full buffersize p \<and> buff \<noteq> [] \<longrightarrow>
        proxy_write buffersize dev wr f_flags buff sig =
          ((if f_flags AND O_NONBLOCK \<noteq> 0 then Fails EWOULDBLOCK
            else if sig then Fails ERESTARTSYS else Sleeps), dev)) \<and>
     (is_full buffersize p \<and> ridx p \<noteq> cidx p \<longrightarrow>
        fst (proxy_read buffersize dev rd fl 1 sg) = Returns (1, [hd (contents p)]) \<and>
        fst (proxy_write buffersize (snd (proxy_read buffersize dev rd fl 1 sg)) wr f_flags [x] sig)
          = Returns 1)"
proof -
  define p where "p = getbuf d dev"
  have ok: "cirbuf_ok buffersize p" using assms by (simp add: p_def)
  have c1: "int (length (contents p)) \<le> buffersize - 1" using ok by (rule contents_le)
  have c2: "contents p = [] \<longleftrightarrow> ridx p = widx p" using ok by (rule contents_empty)
  have c3: "is_full buffersize p \<longleftrightarrow> (ridx p - widx p) mod buffersize = 1"
    using ok assms(5) by (rule is_full_mod)
  have c4: "is_full buffersize p \<longleftrightarrow> int (length (contents p)) = buffersize - 1"
    using ok by (rule is_full_contents)
  have c5: "fst (proxy_write buffersize dev wr f_flags buff sig)
          = Returns (min (int (length buff)) (buffersize - 1))"
    if e: "ridx p = widx p" and s: "length buff < 2 ^ 31"
  proof -
    have "contents p = []" using e c2 by simp
    then have nf: "\<not> is_full buffersize p" using c4 assms(5) by simp
    have "(ridx p - widx p - 1) mod buffersize = buffersize - 1"
      using space_contents [OF ok] \<open>contents p = []\<close> by simp
    then show ?thesis
      using write_spec(1) [OF ok nf s, of f_flags sig] assms
      by (simp add: proxy_write_dir p_def)
  qed
  have c6: "proxy_write buffersize dev wr f_flags buff sig =
          ((if f_flags AND O_NONBLOCK \<noteq> 0 then Fails EWOULDBLOCK
            else if sig then Fails ERESTARTSYS else Sleeps), dev)"
    if "is_full buffersize p"
    using that assms by (simp add: proxy_write_dir cirbuf_write_waits setbuf_getbuf p_def)
  have c7: "fst (proxy_read buffersize dev rd fl 1 sg) = Returns (1, [hd (contents p)]) \<and>
        fst (proxy_write buffersize (snd (proxy_read buffersize dev rd fl 1 sg)) wr f_flags [x] sig)
          = Returns 1"
    if f: "is_full buffersize p" and ne: "ridx p \<noteq> cidx p"
  proof -
    define q where "q = snd (cirbuf_read buffersize p fl 1 sg)"
    have len: "int (length (contents p)) = buffersize - 1" using f c4 by simp
    then have nonempty: "contents p \<noteq> []" using assms(5) by auto
    then have rw: "ridx p \<noteq> widx p" using c2 by simp
    have m: "min 1 (length (contents p)) = 1" using nonempty by (cases "contents p") simp_all
    have one: "(1::nat) < 2 ^ 31" by simp
    note rs = read_spec [OF ok ne rw one, of fl sg, folded q_def, unfolded m]
    have r1: "fst (cirbuf_read buffersize p fl 1 sg) = Returns (1, [hd (contents p)])"
      using rs(1) nonempty by (cases "contents p") simp_all
    have okq: "cirbuf_ok buffersize q" by (rule rs(2))
    have "1 \<le> length (contents p)" using nonempty by (cases "contents p") simp_all
    then have "int (length (contents q)) = buffersize - 2"
      using rs(3) len by (simp add: of_nat_diff)
    then have nfq: "\<not> is_full buffersize q" and sp: "(ridx q - widx q - 1) mod buffersize = 1"
      using is_full_contents [OF okq] space_contents [OF okq] by simp_all
    have s1: "length [x] < 2 ^ 31" by simp
    have w1: "fst (cirbuf_write buffersize 2 q f_flags [x] sig) = Returns 1"
      using write_spec(1) [OF okq nfq s1, of f_flags sig] sp by simp
    have dev1: "snd (proxy_read buffersize dev rd fl 1 sg) = setbuf d q dev"
      using assms by (simp add: proxy_read_dir q_def p_def)
    have r2: "fst (proxy_read buffersize dev rd fl 1 sg) = Returns (1, [hd (contents p)])"
      using assms r1 by (simp only: proxy_read_dir p_def fst_conv)
    have w2: "fst (proxy_write buffersize (setbuf d q dev) wr f_flags [x] sig) = Returns 1"
      using assms w1
      by (simp add: proxy_write_dir dir_setbuf setbuf_fields getbuf_setbuf)
    show ?thesis
      using r2 w2 by (simp only: dev1 simp_thms)
  qed
  show ?thesis
    unfolding Let_def p_def [symmetric]
    using c1 c2 c3 c4 c5 c6 c7 by blast
qed

theorem full_and_empty_witness:
  "wdir dev_full 1 = Some EW \<and> rdir dev_full 2 = Some EW \<and> nopen dev_full = 2 \<and>
   cirbuf_ok 8 (getbuf EW dev_full) \<and> (2::int) \<le> 8 \<and>
   is_full 8 (getbuf EW dev_full) \<and>
   (ridx (getbuf EW dev_full) - widx (getbuf EW dev_full)) mod 8 = 1 \<and>
   contents (getbuf EW dev_full) = [16, 17, 10, 11, 12, 13, 14] \<and>
   ridx (getbuf EW dev_full) \<noteq> cidx (getbuf EW dev_full) \<and>
   proxy_write 8 dev_full 1 2050 [65] False = (Fails EWOULDBLOCK, dev_full) \<and>
   fst (proxy_read 8 dev_full 2 2 1 False) = Returns (1, [16]) \<and>
   fst (proxy_write 8 (snd (proxy_read 8 dev_full 2 2 1 False)) 1 2050 [65] False) = Returns 1"
  using full_and_empty [where dev = dev_full and wr = 1 and rd = 2 and d = EW
      and buffersize = 8 and buff = "[65]" and f_flags = 2050 and sig = False and fl = 2
      and sg = False and x = 65]
  by (simp add: dev_full_def empty_at_def wdir_def rdir_def cirbuf_ok_def is_full_def
      contents_def ring_def Let_def O_NONBLOCK_def upt_rec)

subsection \<open>End of file\<close>

text \<open>
  C3, as the claim is written: once a read has returned 0 bytes at the close marker,
  every read of that buffer returns 0 until the next open.  It does not after an end of
  file signalled by a write of length 0: the east writes 0 bytes and the west reads the
  end of file; the east then writes one byte and releases the device.  The release
  moves the close marker to the write cursor, and the next read of the west returns the
  byte, with no open in between.
\<close>

theorem eof_ends_without_connect:
  "fst (proxy_write 8 dev_pair 1 2 [] False) = Returns 0 \<and>
   snd (proxy_write 8 dev_pair 1 2 [] False) = dev_soft_eof \<and>
   rdir dev_soft_eof 2 = Some EW \<and> cidx (getbuf EW dev_soft_eof) = 6 \<and>
   ridx (getbuf EW dev_soft_eof) = cidx (getbuf EW dev_soft_eof) \<and>
   proxy_read 8 dev_soft_eof 2 2 4 False = (Returns (0, []), dev_soft_eof) \<and>
   fst (proxy_write 8 dev_soft_eof 1 2 [65] False) = Returns 1 \<and>
   fst (proxy_release (snd (proxy_write 8 dev_soft_eof 1 2 [65] False)) 1) = Returns 0 \<and>
   fst (proxy_read 8 (snd (proxy_release (snd (proxy_write 8 dev_soft_eof 1 2 [65] False)) 1))
          2 2 4 False) = Returns (1, [65])"
  by (simp add: dev_pair_def dev_soft_eof_def empty_at_def zeros8_def rdir_def proxy_write_def
      proxy_read_def proxy_release_def cirbuf_write_def cirbuf_read_def is_full_def
      copy_from_user_def copy_to_user_def int_of_size_t_small Let_def)

text \<open>
  C3, amended.  A read on a buffer whose read cursor stands at the close marker returns
  0 bytes at once, in blocking mode too, and leaves the device as it is.  The read
  cursor stays at the close marker through every read and every write of one byte or
  more, by any file.  Once the writing side of the buffer is free, it stays there
  through every run of reads, writes and releases, by any files and with any outcome, so
  that until the next open every read of the buffer returns 0.  When one side writes
  into the empty buffer and releases the device, the other side still reads the bytes
  written: a read of \<open>k \<ge> 1\<close> bytes returns the first \<open>k\<close> of them; if that drained
  the buffer, the next read returns 0 bytes, and if it did not, the next read returns
  further bytes, not 0.
\<close>

theorem eof_at_close_marker:
  fixes f_flags fla flb :: int and sig sga sgb :: bool
  shows
  "(rdir dev rd = Some d \<and> ridx (getbuf d dev) = cidx (getbuf d dev) \<longrightarrow>
      proxy_read buffersize dev rd f_flags count sig = (Returns (0, []), dev)) \<and>
   (ridx (getbuf d dev) = cidx (getbuf d dev) \<longrightarrow>
      ridx (getbuf d (snd (proxy_read buffersize dev f f_flags count sig)))
        = cidx (getbuf d (snd (proxy_read buffersize dev f f_flags count sig))) \<and>
      (buff \<noteq> [] \<longrightarrow>
         ridx (getbuf d (snd (proxy_write buffersize dev f f_flags buff sig)))
           = cidx (getbuf d (snd (proxy_write buffersize dev f f_flags buff sig))))) \<and>
   (writer_side d dev = None \<and> ridx (getbuf d dev) = cidx (getbuf d dev) \<longrightarrow>
      (let dev' = run buffersize dev calls
       in writer_side d dev' = None \<and>
          ridx (getbuf d dev') = cidx (getbuf d dev') \<and>
          (rdir dev' rd = Some d \<longrightarrow>
             proxy_read buffersize dev' rd f_flags count sig = (Returns (0, []), dev')))) \<and>
   (wdir dev wr = Some d \<and> rdir dev rd = Some d \<and> nopen dev = 2
      \<and> cirbuf_ok buffersize (getbuf d dev) \<and> buffersize \<le> 2 ^ 31
      \<and> ridx (getbuf d dev) = widx (getbuf d dev)
      \<and> buff \<noteq> [] \<and> int (length buff) \<le> buffersize - 1
      \<and> 1 \<le> k \<and> k < 2 ^ 31 \<and> 1 \<le> k' \<and> k' < 2 ^ 31 \<longrightarrow>
      (let dev1 = snd (proxy_write buffersize dev wr f_flags buff sig);
           dev2 = snd (proxy_release dev1 wr);
           dev3 = snd (proxy_read buffersize dev2 rd fla k sga)
       in fst (proxy_write buffersize dev wr f_flags buff sig) = Returns (int (length buff)) \<and>
          fst (proxy_release dev1 wr) = Returns 0 \<and>
          fst (proxy_read buffersize dev2 rd fla k sga)
            = Returns (int (min k (length buff)), take k buff) \<and>
          (length buff \<le> k \<longrightarrow>
             proxy_read buffersize dev3 rd flb k' sgb = (Returns (0, []), dev3)) \<and>
          (k < length buff \<longrightarrow>
             fst (proxy_read buffersize dev3 rd flb k' sgb)
               = Returns (int (min k' (length buff - k)), take k' (drop k buff)))))"
proof (intro conjI impI)
  assume "rdir dev rd = Some d \<and> ridx (getbuf d dev) = cidx (getbuf d dev)"
  then show "proxy_read buffersize dev rd f_flags count sig = (Returns (0, []), dev)"
    by (simp add: proxy_read_eof)
next
  assume "ridx (getbuf d dev) = cidx (getbuf d dev)"
  then show "ridx (getbuf d (snd (proxy_read buffersize dev f f_flags count sig)))
        = cidx (getbuf d (snd (proxy_read buffersize dev f f_flags count sig)))"
    by (rule eof_kept_by_read)
next
  assume "ridx (getbuf d dev) = cidx (getbuf d dev)" "buff \<noteq> []"
  then show "ridx (getbuf d (snd (proxy_write buffersize dev f f_flags buff sig)))
           = cidx (getbuf d (snd (proxy_write buffersize dev f f_flags buff sig)))"
    by (rule eof_kept_by_write)
next
  assume a: "writer_side d dev = None \<and> ridx (getbuf d dev) = cidx (getbuf d dev)"
  define dev1 where "dev1 = run buffersize dev calls"
  have i: "writer_side d dev1 = None" "ridx (getbuf d dev1) = cidx (getbuf d dev1)"
    using a hard_eof_run [of d dev buffersize calls] by (simp_all add: dev1_def)
  have "proxy_read buffersize dev1 rd f_flags count sig = (Returns (0, []), dev1)"
    if "rdir dev1 rd = Some d"
    using that i(2) by (rule proxy_read_eof)
  then show "let dev' = run buffersize dev calls
       in writer_side d dev' = None \<and>
          ridx (getbuf d dev') = cidx (getbuf d dev') \<and>
          (rdir dev' rd = Some d \<longrightarrow>
             proxy_read buffersize dev' rd f_flags count sig = (Returns (0, []), dev'))"
    unfolding Let_def dev1_def [symmetric] using i by blast
next
  assume a: "wdir dev wr = Some d \<and> rdir dev rd = Some d \<and> nopen dev = 2
      \<and> cirbuf_ok buffersize (getbuf d dev) \<and> buffersize \<le> 2 ^ 31
      \<and> ridx (getbuf d dev) = widx (getbuf d dev)
      \<and> buff \<noteq> [] \<and> int (length buff) \<le> buffersize - 1
      \<and> 1 \<le> k \<and> k < 2 ^ 31 \<and> 1 \<le> k' \<and> k' < 2 ^ 31"
  then have h: "wdir dev wr = Some d" "rdir dev rd = Some d" "nopen dev = 2"
    "cirbuf_ok buffersize (getbuf d dev)" "buffersize \<le> 2 ^ 31"
    "ridx (getbuf d dev) = widx (getbuf d dev)"
    "buff \<noteq> []" "int (length buff) \<le> buffersize - 1"
    "1 \<le> k" "k < 2 ^ 31" "1 \<le> k'" "k' < 2 ^ 31"
    by simp_all
  note s = write_release_read [OF h]
  show "let dev1 = snd (proxy_write buffersize dev wr f_flags buff sig);
           dev2 = snd (proxy_release dev1 wr);
           dev3 = snd (proxy_read buffersize dev2 rd fla k sga)
       in fst (proxy_write buffersize dev wr f_flags buff sig) = Returns (int (length buff)) \<and>
          fst (proxy_release dev1 wr) = Returns 0 \<and>
          fst (proxy_read buffersize dev2 rd fla k sga)
            = Returns (int (min k (length buff)), take k buff) \<and>
          (length buff \<le> k \<longrightarrow>
             proxy_read buffersize dev3 rd flb k' sgb = (Returns (0, []), dev3)) \<and>
          (k < length buff \<longrightarrow>
             fst (proxy_read buffersize dev3 rd flb k' sgb)
               = Returns (int (min k' (length buff - k)), take k' (drop k buff)))"
    unfolding Let_def using s by blast
qed

theorem eof_at_close_marker_witness:
  "rdir dev_eof 2 = Some EW \<and> ridx (getbuf EW dev_eof) = cidx (getbuf EW dev_eof) \<and>
   proxy_read 8 dev_eof 2 2 4 False = (Returns (0, []), dev_eof) \<and>
   wdir dev_soft_eof 1 = Some EW \<and>
   ridx (getbuf EW dev_soft_eof) = cidx (getbuf EW dev_soft_eof) \<and>
   [65, 66, 67] \<noteq> ([] :: byte list) \<and>
   fst (proxy_write 8 dev_soft_eof 1 2 [65, 66, 67] False) = Returns 3 \<and>
   ridx (getbuf EW (snd (proxy_write 8 dev_soft_eof 1 2 [65, 66, 67] False)))
     = cidx (getbuf EW (snd (proxy_write 8 dev_soft_eof 1 2 [65, 66, 67] False))) \<and>
   writer_side EW dev_eof = None \<and>
   rdir (run 8 dev_eof [CallRead 2 2 4 False, CallWrite 2 2050 [65] False, CallRead 2 2 1 False]) 2
     = Some EW \<and>
   proxy_read 8 (run 8 dev_eof [CallRead 2 2 4 False, CallWrite 2 2050 [65] False, CallRead 2 2 1 False])
       2 2 4 False
     = (Returns (0, []),
        run 8 dev_eof [CallRead 2 2 4 False, CallWrite 2 2050 [65] False, CallRead 2 2 1 False]) \<and>
   wdir dev_pair 1 = Some EW \<and> rdir dev_pair 2 = Some EW \<and> nopen dev_pair = 2 \<and>
   cirbuf_ok 8 (getbuf EW dev_pair) \<and> (8::int) \<le> 2 ^ 31 \<and>
   ridx (getbuf EW dev_pair) = widx (getbuf EW dev_pair) \<and>
   int (length [65, 66, 67 :: byte]) \<le> 8 - 1 \<and>
   (let dev1 = snd (proxy_write 8 dev_pair 1 2 [65, 66, 67] False);
        dev2 = snd (proxy_release dev1 1)
    in fst (proxy_write 8 dev_pair 1 2 [65, 66, 67] False) = Returns 3 \<and>
       fst (proxy_read 8 dev2 2 2 2 False) = Returns (2, [65, 66]) \<and>
       fst (proxy_read 8 (snd (proxy_read 8 dev2 2 2 2 False)) 2 2 5 False) = Returns (1, [67]) \<and>
       fst (proxy_read 8 dev2 2 2 4 False) = Returns (3, [65, 66, 67]) \<and>
       proxy_read 8 (snd (proxy_read 8 dev2 2 2 4 False)) 2 2 5 False
         = (Returns (0, []), snd (proxy_read 8 dev2 2 2 4 False)))"
proof -
  have w: "fst (proxy_write 8 dev_soft_eof 1 2 [65, 66, 67] False) = Returns 3"
    by (simp add: dev_soft_eof_def empty_at_def zeros8_def proxy_write_def cirbuf_write_def
        is_full_def copy_from_user_def int_of_size_t_small Let_def)
  have r: "rdir (run 8 dev_eof [CallRead 2 2 4 False, CallWrite 2 2050 [65] False, CallRead 2 2 1 False]) 2
     = Some EW"
    by (simp add: run_def dev_eof_def empty_at_def zeros8_def rdir_def proxy_write_def
        proxy_read_def proxy_release_def cirbuf_write_def cirbuf_read_def is_full_def
        O_NONBLOCK_def Let_def)
  show ?thesis
    using w r
      eof_at_close_marker [where dev = dev_eof and rd = 2 and d = EW and buffersize = 8
        and f_flags = 2 and count = 4 and sig = False
        and calls = "[CallRead 2 2 4 False, CallWrite 2 2050 [65] False, CallRead 2 2 1 False]"]
      eof_at_close_marker [where dev = dev_soft_eof and d = EW and buffersize = 8
        and f_flags = 2 and sig = False and f = 1 and buff = "[65, 66, 67]"]
      eof_at_close_marker [where dev = dev_pair and wr = 1 and rd = 2 and d = EW
        and buffersize = 8 and f_flags = 2 and sig = False and buff = "[65, 66, 67]" and k = 2
        and k' = 5 and fla = 2 and sga = False and flb = 2 and sgb = False]
      eof_at_close_marker [where dev = dev_pair and wr = 1 and rd = 2 and d = EW
        and buffersize = 8 and f_flags = 2 and sig = False and buff = "[65, 66, 67]" and k = 4
        and k' = 5 and fla = 2 and sga = False and flb = 2 and sgb = False]
    by (simp add: dev_eof_def dev_soft_eof_def dev_pair_def empty_at_def zeros8_def wdir_def
        rdir_def writer_side_def cirbuf_ok_def Let_def)
qed

subsection \<open>What a write transfers\<close>

text \<open>
  C4.  A write of \<open>n \<ge> 1\<close> bytes, issued while both sides are open (the driver reads
  that off as \<open>nopen = 2\<close>) and the buffer is not full, succeeds and returns
  \<open>min n ((ridx - widx - 1) mod buffersize)\<close>, which may be less than \<open>n\<close>.  The write
  cursor advances by that amount modulo \<open>buffersize\<close>, the bytes transferred are the
  first ones of the caller's buffer and follow the bytes already waiting, and the read
  cursor and the close marker stay.  \<open>n\<close> fits an \<^verbatim>\<open>int\<close>.
\<close>

theorem write_transfers_min:
  assumes "wdir dev filp = Some d" "nopen dev = 2" "cirbuf_ok buffersize (getbuf d dev)"
    and "\<not> is_full buffersize (getbuf d dev)" "buff \<noteq> []" "length buff < 2 ^ 31"
  shows "let p = getbuf d dev;
             xfer = min (int (length buff)) ((ridx p - widx p - 1) mod buffersize);
             p' = getbuf d (snd (proxy_write buffersize dev filp f_flags buff sig))
         in fst (proxy_write buffersize dev filp f_flags buff sig) = Returns xfer \<and>
            widx p' = (widx p + xfer) mod buffersize \<and>
            contents p' = contents p @ take (nat xfer) buff \<and>
            ridx p' = ridx p \<and> cidx p' = cidx p"
  using assms write_spec [of buffersize "getbuf d dev" buff f_flags sig]
  by (simp add: proxy_write_dir getbuf_setbuf Let_def)

theorem write_transfers_min_witness:
  "wdir dev_pair 1 = Some EW \<and> nopen dev_pair = 2 \<and> cirbuf_ok 8 (getbuf EW dev_pair) \<and>
   \<not> is_full 8 (getbuf EW dev_pair) \<and> [65, 66, 67] \<noteq> ([] :: byte list) \<and>
   length [65, 66, 67 :: byte] < 2 ^ 31 \<and>
   fst (proxy_write 8 dev_pair 1 2 [65, 66, 67] False) = Returns 3 \<and>
   widx (getbuf EW (snd (proxy_write 8 dev_pair 1 2 [65, 66, 67] False))) = 1 \<and>
   contents (getbuf EW (snd (proxy_write 8 dev_pair 1 2 [65, 66, 67] False))) = [65, 66, 67]"
  using write_transfers_min [where dev = dev_pair and filp = 1 and d = EW and buffersize = 8
      and buff = "[65, 66, 67]" and f_flags = 2 and sig = False]
  by (simp add: dev_pair_def empty_at_def zeros8_def wdir_def cirbuf_ok_def is_full_def
      contents_def ring_def Let_def)

subsection \<open>Readiness\<close>

text \<open>
  C5.  \<^verbatim>\<open>proxy_poll\<close> is to report a side writable only when, among the other
  conditions, the other side is connected, as its comment says too.  The driver tests
  that as \<open>nopen = 2\<close>, and \<^verbatim>\<open>proxy_open\<close> raises \<open>nopen\<close> before it allocates
  the buffers and leaves it raised when it fails with \<open>ENOMEM\<close>.  On a fresh device,
  after an open that fails for lack of memory and an open by file 1 that succeeds, the
  west side is free, and a poll by file 1 reports it writable.
\<close>

theorem poll_writable_without_peer:
  "fst (proxy_open None None (px_init 0) 9 2) = Fails ENOMEM \<and>
   fst (proxy_open (Some zeros8) (Some zeros8) (snd (proxy_open None None (px_init 0) 9 2)) 1 2)
     = Returns 0 \<and>
   east dev_leaked = Some 1 \<and> west dev_leaked = None \<and> peer dev_leaked 1 = None \<and>
   proxy_poll 8 dev_leaked 1 2 AND POLLOUT \<noteq> 0"
  by (simp add: dev_leaked_eq proxy_open_def px_init_def cirbuf_init_def Let_def
      peer_def proxy_poll_def is_full_def empty_at_def O_ACCMODE_def O_RDONLY_def O_WRONLY_def
      POLLOUT_def POLLWRNORM_def POLLIN_def POLLRDNORM_def)

theorem poll_writable_without_peer_witness:
  "west dev_leaked = None \<and> peer dev_leaked 1 = None \<and>
   proxy_poll 8 dev_leaked 1 2 AND POLLOUT \<noteq> 0"
  using poll_writable_without_peer by simp

subsection \<open>Opening a device\<close>

text \<open>
  C6, as the claim is written: an open while not both sides are in use succeeds.  It does
  not when the buffers cannot be allocated: on a fresh device, with no memory, the open
  fails with \<open>ENOMEM\<close>.
\<close>

theorem open_fails_without_memory:
  "\<not> (east (px_init 0) \<noteq> None \<and> west (px_init 0) \<noteq> None) \<and>
   fst (proxy_open None None (px_init 0) 1 2) = Fails ENOMEM"
  by (simp add: proxy_open_def px_init_def cirbuf_init_def Let_def)

text \<open>
  C6, amended.  On a device whose open count is the number of sides in use: an open
  while both sides are in use fails with \<open>EBUSY\<close> and leaves the device as it is;
  otherwise, when each buffer is allocated already or its allocation succeeds, the open
  succeeds and puts the file on a free side, the east one when it is free, leaving the
  other side as it is.
\<close>

theorem open_busy_or_binds:
  assumes "open_count_ok dev"
  shows "(east dev \<noteq> None \<and> west dev \<noteq> None \<longrightarrow>
            proxy_open km_ew km_we dev filp f_flags = (Fails EBUSY, dev)) \<and>
         ((east dev = None \<or> west dev = None)
            \<and> (buf (ewbuf dev) \<noteq> None \<or> km_ew \<noteq> None)
            \<and> (buf (webuf dev) \<noteq> None \<or> km_we \<noteq> None) \<longrightarrow>
            (let dev' = snd (proxy_open km_ew km_we dev filp f_flags)
             in fst (proxy_open km_ew km_we dev filp f_flags) = Returns 0 \<and>
                (if east dev = None then east dev' = Some filp \<and> west dev' = west dev
                 else west dev' = Some filp \<and> east dev' = east dev) \<and>
                nopen dev' = nopen dev + 1 \<and> open_count_ok dev'))"
proof (intro conjI impI)
  assume "east dev \<noteq> None \<and> west dev \<noteq> None"
  then have "2 \<le> nopen dev" using assms by (simp add: open_count_ok_def)
  then show "proxy_open km_ew km_we dev filp f_flags = (Fails EBUSY, dev)"
    by (rule proxy_open_busy)
next
  assume a: "(east dev = None \<or> west dev = None)
            \<and> (buf (ewbuf dev) \<noteq> None \<or> km_ew \<noteq> None)
            \<and> (buf (webuf dev) \<noteq> None \<or> km_we \<noteq> None)"
  then have n: "nopen dev < 2" using assms by (auto simp: open_count_ok_def)
  have o: "proxy_open km_ew km_we dev filp f_flags =
     (let dev3 = opened km_ew km_we dev in
      if east dev = None then
        (Returns 0,
         dev3\<lparr>east := Some filp,
              webuf := (webuf dev3)\<lparr>ridx := widx (webuf dev3), cidx := - 1\<rparr>,
              ewbuf := (ewbuf dev3)\<lparr>cidx := - 1\<rparr>,
              eastaccmode := f_flags\<rparr>)
      else if west dev = None then
        (Returns 0,
         dev3\<lparr>west := Some filp,
              ewbuf := (ewbuf dev3)\<lparr>ridx := widx (ewbuf dev3), cidx := - 1\<rparr>,
              webuf := (webuf dev3)\<lparr>cidx := - 1\<rparr>,
              westaccmode := f_flags\<rparr>)
      else (Returns 0, dev3))"
    using n a by (intro proxy_open_ok) simp_all
  show "let dev' = snd (proxy_open km_ew km_we dev filp f_flags)
             in fst (proxy_open km_ew km_we dev filp f_flags) = Returns 0 \<and>
                (if east dev = None then east dev' = Some filp \<and> west dev' = west dev
                 else west dev' = Some filp \<and> east dev' = east dev) \<and>
                nopen dev' = nopen dev + 1 \<and> open_count_ok dev'"
    using a assms unfolding o by (auto simp: Let_def opened_def open_count_ok_def)
qed

theorem open_busy_or_binds_witness:
  "open_count_ok dev_pair \<and> east dev_pair \<noteq> None \<and> west dev_pair \<noteq> None \<and>
   proxy_open None None dev_pair 3 2 = (Fails EBUSY, dev_pair) \<and>
   open_count_ok dev_east_only \<and> west dev_east_only = None \<and>
   buf (ewbuf dev_east_only) \<noteq> None \<and> buf (webuf dev_east_only) \<noteq> None \<and>
   fst (proxy_open None None dev_east_only 3 2) = Returns 0 \<and>
   west (snd (proxy_open None None dev_east_only 3 2)) = Some 3 \<and>
   east (snd (proxy_open None None dev_east_only 3 2)) = Some 1 \<and>
   nopen (snd (proxy_open None None dev_east_only 3 2)) = 2"
  using open_busy_or_binds [where dev = dev_pair and km_ew = None and km_we = None
      and filp = 3 and f_flags = 2]
    open_busy_or_binds [where dev = dev_east_only and km_ew = None and km_we = None
      and filp = 3 and f_flags = 2]
  by (simp add: dev_pair_def dev_east_only_def empty_at_def open_count_ok_def Let_def)

subsection \<open>The zero-length write\<close>

text \<open>
  C7.  A write of length 0 that gets past the wait (both sides open, buffer not full)
  returns 0 and sets the close marker of its buffer to the write cursor; cursors, bytes,
  sides and open count stay, so the writer remains connected.  The reader then sees the
  end of file once it has drained the buffer to that point: when nothing waits, its next
  read returns 0 bytes; when bytes wait, a read of \<open>k \<ge> 1\<close> bytes returns the first
  \<open>k\<close> of them, the read after it returns 0 bytes if that took them all, and further
  bytes, not 0, if it did not.  No write of one byte or more and no read changes a close
  marker, whatever the state and the outcome.
\<close>

theorem zero_length_write_sets_close_marker:
  fixes fl fla flb :: int and sg sga sgb :: bool
  shows
  "(wdir dev filp = Some d \<and> nopen dev = 2 \<and> cirbuf_ok buffersize (getbuf d dev)
      \<and> \<not> is_full buffersize (getbuf d dev) \<longrightarrow>
    (let p = getbuf d dev;
         dev' = snd (proxy_write buffersize dev filp f_flags [] sig);
         p' = getbuf d dev'
     in fst (proxy_write buffersize dev filp f_flags [] sig) = Returns 0 \<and>
        cidx p' = widx p \<and> widx p' = widx p \<and> ridx p' = ridx p \<and> contents p' = contents p \<and>
        east dev' = east dev \<and> west dev' = west dev \<and> nopen dev' = nopen dev \<and>
        (rdir dev rd = Some d \<and> ridx p = widx p \<longrightarrow>
           proxy_read buffersize dev' rd fl count sg = (Returns (0, []), dev')) \<and>
        (rdir dev rd = Some d \<and> ridx p \<noteq> widx p
           \<and> 1 \<le> k \<and> k < 2 ^ 31 \<and> 1 \<le> k' \<and> k' < 2 ^ 31 \<longrightarrow>
           (let dev'' = snd (proxy_read buffersize dev' rd fla k sga)
            in fst (proxy_read buffersize dev' rd fla k sga)
                 = Returns (int (min k (length (contents p))), take k (contents p)) \<and>
               (length (contents p) \<le> k \<longrightarrow>
                  proxy_read buffersize dev'' rd flb k' sgb = (Returns (0, []), dev'')) \<and>
               (k < length (contents p) \<longrightarrow>
                  fst (proxy_read buffersize dev'' rd flb k' sgb)
                    = Returns (int (min k' (length (contents p) - k)),
                               take k' (drop k (contents p)))))))) \<and>
   (buff \<noteq> [] \<longrightarrow>
      cidx (getbuf d' (snd (proxy_write buffersize dev filp f_flags buff sig))) = cidx (getbuf d' dev)) \<and>
   cidx (getbuf d' (snd (proxy_read buffersize dev filp f_flags count sig))) = cidx (getbuf d' dev)"
proof (intro conjI impI)
  assume a: "wdir dev filp = Some d \<and> nopen dev = 2 \<and> cirbuf_ok buffersize (getbuf d dev)
      \<and> \<not> is_full buffersize (getbuf d dev)"
  define p where "p = getbuf d dev"
  define q where "q = snd (cirbuf_write buffersize 2 p f_flags [] sig)"
  define dev1 where "dev1 = setbuf d q dev"
  have ok: "cirbuf_ok buffersize p" "\<not> is_full buffersize p" using a by (simp_all add: p_def)
  have w: "fst (cirbuf_write buffersize 2 p f_flags [] sig) = Returns 0"
    "cidx q = widx p" "widx q = widx p" "ridx q = ridx p" "contents q = contents p"
    "cirbuf_ok buffersize q"
    using write_spec [OF ok, of "[]" f_flags sig] ok
    by (simp_all add: q_def cirbuf_ok_def)
  have dev': "snd (proxy_write buffersize dev filp f_flags [] sig) = dev1"
    using a by (simp add: proxy_write_dir q_def p_def dev1_def)
  have c1: "fst (proxy_write buffersize dev filp f_flags [] sig) = Returns 0"
    using a w(1) by (simp add: proxy_write_dir p_def)
  have g: "getbuf d dev1 = q" by (simp add: dev1_def getbuf_setbuf)
  have fr: "east dev1 = east dev" "west dev1 = west dev" "nopen dev1 = nopen dev"
    by (simp_all add: dev1_def setbuf_fields)
  have rd: "proxy_read buffersize dev1 rd fl count sg = (Returns (0, []), dev1)"
    if "rdir dev rd = Some d \<and> ridx p = widx p"
  proof -
    have "rdir dev1 rd = Some d" using that by (simp add: dev1_def dir_setbuf)
    moreover have "ridx (getbuf d dev1) = cidx (getbuf d dev1)" using that w by (simp add: g)
    ultimately show ?thesis by (rule proxy_read_eof)
  qed
  have dr: "let dev'' = snd (proxy_read buffersize dev1 rd fla k sga)
            in fst (proxy_read buffersize dev1 rd fla k sga)
                 = Returns (int (min k (length (contents p))), take k (contents p)) \<and>
               (length (contents p) \<le> k \<longrightarrow>
                  proxy_read buffersize dev'' rd flb k' sgb = (Returns (0, []), dev'')) \<and>
               (k < length (contents p) \<longrightarrow>
                  fst (proxy_read buffersize dev'' rd flb k' sgb)
                    = Returns (int (min k' (length (contents p) - k)),
                               take k' (drop k (contents p))))"
    if h: "rdir dev rd = Some d \<and> ridx p \<noteq> widx p
           \<and> 1 \<le> k \<and> k < 2 ^ 31 \<and> 1 \<le> k' \<and> k' < 2 ^ 31"
  proof -
    have r: "rdir dev1 rd = Some d" using h by (simp add: dev1_def dir_setbuf)
    have o: "cirbuf_ok buffersize (getbuf d dev1)" using w(6) by (simp add: g)
    have m: "cidx (getbuf d dev1) = widx (getbuf d dev1)" using w by (simp add: g)
    have "contents p \<noteq> []" using contents_empty [OF ok(1)] h by simp
    then have n: "contents (getbuf d dev1) \<noteq> []" using w(5) by (simp add: g)
    have k: "k < 2 ^ 31" "k' < 2 ^ 31" using h by simp_all
    note s = drain_to_marker [OF r o m n k, unfolded g w(5)]
    show ?thesis unfolding Let_def using s by blast
  qed
  show "let p = getbuf d dev;
         dev' = snd (proxy_write buffersize dev filp f_flags [] sig);
         p' = getbuf d dev'
     in fst (proxy_write buffersize dev filp f_flags [] sig) = Returns 0 \<and>
        cidx p' = widx p \<and> widx p' = widx p \<and> ridx p' = ridx p \<and> contents p' = contents p \<and>
        east dev' = east dev \<and> west dev' = west dev \<and> nopen dev' = nopen dev \<and>
        (rdir dev rd = Some d \<and> ridx p = widx p \<longrightarrow>
           proxy_read buffersize dev' rd fl count sg = (Returns (0, []), dev')) \<and>
        (rdir dev rd = Some d \<and> ridx p \<noteq> widx p
           \<and> 1 \<le> k \<and> k < 2 ^ 31 \<and> 1 \<le> k' \<and> k' < 2 ^ 31 \<longrightarrow>
           (let dev'' = snd (proxy_read buffersize dev' rd fla k sga)
            in fst (proxy_read buffersize dev' rd fla k sga)
                 = Returns (int (min k (length (contents p))), take k (contents p)) \<and>
               (length (contents p) \<le> k \<longrightarrow>
                  proxy_read buffersize dev'' rd flb k' sgb = (Returns (0, []), dev'')) \<and>
               (k < length (contents p) \<longrightarrow>
                  fst (proxy_read buffersize dev'' rd flb k' sgb)
                    = Returns (int (min k' (length (contents p) - k)),
                               take k' (drop k (contents p))))))"
    using c1 w(2-5) fr rd dr unfolding Let_def dev' p_def [symmetric] g by blast
next
  assume "buff \<noteq> []"
  then show "cidx (getbuf d' (snd (proxy_write buffersize dev filp f_flags buff sig))) = cidx (getbuf d' dev)"
    by (rule proxy_write_cidx)
next
  show "cidx (getbuf d' (snd (proxy_read buffersize dev filp f_flags count sig))) = cidx (getbuf d' dev)"
    by (rule proxy_read_cidx)
qed


theorem zero_length_write_sets_close_marker_witness:
  "wdir dev_pair 1 = Some EW \<and> nopen dev_pair = 2 \<and> cirbuf_ok 8 (getbuf EW dev_pair) \<and>
   \<not> is_full 8 (getbuf EW dev_pair) \<and> rdir dev_pair 2 = Some EW \<and>
   ridx (getbuf EW dev_pair) = widx (getbuf EW dev_pair) \<and>
   fst (proxy_write 8 dev_pair 1 2 [] False) = Returns 0 \<and>
   cidx (getbuf EW (snd (proxy_write 8 dev_pair 1 2 [] False))) = 6 \<and>
   east (snd (proxy_write 8 dev_pair 1 2 [] False)) = Some 1 \<and>
   proxy_read 8 (snd (proxy_write 8 dev_pair 1 2 [] False)) 2 2 4 False
     = (Returns (0, []), snd (proxy_write 8 dev_pair 1 2 [] False)) \<and>
   [65] \<noteq> ([] :: byte list) \<and>
   cidx (getbuf EW (snd (proxy_write 8 dev_pair 1 2 [65] False))) = - 1 \<and>
   cidx (getbuf EW (snd (proxy_read 8 dev_pair 1 2 4 False))) = - 1 \<and>
   wdir dev_pending 1 = Some EW \<and> nopen dev_pending = 2 \<and>
   cirbuf_ok 8 (getbuf EW dev_pending) \<and> \<not> is_full 8 (getbuf EW dev_pending) \<and>
   rdir dev_pending 2 = Some EW \<and>
   ridx (getbuf EW dev_pending) \<noteq> widx (getbuf EW dev_pending) \<and>
   contents (getbuf EW dev_pending) = [16, 17, 10] \<and>
   fst (proxy_write 8 dev_pending 1 2 [] False) = Returns 0 \<and>
   cidx (getbuf EW (snd (proxy_write 8 dev_pending 1 2 [] False))) = 1 \<and>
   fst (proxy_read 8 (snd (proxy_write 8 dev_pending 1 2 [] False)) 2 2 8 False)
     = Returns (3, [16, 17, 10]) \<and>
   proxy_read 8 (snd (proxy_read 8 (snd (proxy_write 8 dev_pending 1 2 [] False)) 2 2 8 False))
       2 2 5 False
     = (Returns (0, []),
        snd (proxy_read 8 (snd (proxy_write 8 dev_pending 1 2 [] False)) 2 2 8 False)) \<and>
   fst (proxy_read 8 (snd (proxy_write 8 dev_pending 1 2 [] False)) 2 2 2 False)
     = Returns (2, [16, 17]) \<and>
   fst (proxy_read 8 (snd (proxy_read 8 (snd (proxy_write 8 dev_pending 1 2 [] False)) 2 2 2 False))
         2 2 5 False)
     = Returns (1, [10])"
  using zero_length_write_sets_close_marker [where dev = dev_pair and filp = 1 and d = EW
      and buffersize = 8 and f_flags = 2 and sig = False and rd = 2 and fl = 2 and count = 4
      and sg = False and buff = "[65]" and d' = EW]
    zero_length_write_sets_close_marker [where dev = dev_pending and filp = 1 and d = EW
      and buffersize = 8 and f_flags = 2 and sig = False and rd = 2 and k = 8 and k' = 5
      and fla = 2 and sga = False and flb = 2 and sgb = False]
    zero_length_write_sets_close_marker [where dev = dev_pending and filp = 1 and d = EW
      and buffersize = 8 and f_flags = 2 and sig = False and rd = 2 and k = 2 and k' = 5
      and fla = 2 and sga = False and flb = 2 and sgb = False]
  by (simp add: dev_pair_def dev_pending_def empty_at_def zeros8_def wdir_def rdir_def
      cirbuf_ok_def is_full_def contents_def ring_def Let_def upt_rec)

subsection \<open>What an open resets\<close>

text \<open>
  C8.  A successful open that puts the file on a side sets the read cursor of that
  side's inbound buffer to the buffer's write cursor, so that nothing written before
  is waiting for the new reader, and sets both close markers to \<open>-1\<close>.  The write
  cursors, the other read cursor and the bytes of a buffer that was allocated stay.
\<close>

theorem open_resets_inbound:
  assumes "proxy_open km_ew km_we dev filp f_flags = (Returns 0, dev')"
    and "east dev = None \<or> west dev = None"
  shows "let din = (if east dev = None then WE else EW);
             dout = (if east dev = None then EW else WE)
         in (if east dev = None then east dev' = Some filp else west dev' = Some filp) \<and>
            ridx (getbuf din dev') = widx (getbuf din dev) \<and>
            contents (getbuf din dev') = [] \<and>
            cidx (ewbuf dev') = - 1 \<and> cidx (webuf dev') = - 1 \<and>
            widx (ewbuf dev') = widx (ewbuf dev) \<and> widx (webuf dev') = widx (webuf dev) \<and>
            ridx (getbuf dout dev') = ridx (getbuf dout dev) \<and>
            (buf (ewbuf dev) \<noteq> None \<longrightarrow> buf (ewbuf dev') = buf (ewbuf dev)) \<and>
            (buf (webuf dev) \<noteq> None \<longrightarrow> buf (webuf dev') = buf (webuf dev))"
proof -
  have n: "nopen dev < 2"
    using assms(1) by (cases "2 \<le> nopen dev") (simp_all add: proxy_open_busy)
  have e: "buf (ewbuf dev) \<noteq> None \<or> km_ew \<noteq> None"
    using assms(1) n by (auto simp: proxy_open_def Let_def split: if_splits)
  have w: "buf (webuf dev) \<noteq> None \<or> km_we \<noteq> None"
    using assms(1) n e by (auto simp: proxy_open_def Let_def split: if_splits)
  have c0: "contents p = []" if "ridx p = widx p" for p
    using that by (simp add: contents_def ring_def split: option.split)
  from assms show ?thesis
    unfolding proxy_open_ok [OF n e w]
    by (auto simp: Let_def opened_def c0 split: if_splits)
qed

theorem open_resets_inbound_witness:
  "proxy_open None None dev_west_pending 3 2 =
     (Returns 0, dev_west_pending\<lparr>nopen := 2, east := Some 3,
        webuf := \<lparr>buf = Some zeros8, widx = 3, ridx = 3, cidx = - 1\<rparr>,
        ewbuf := \<lparr>buf = Some zeros8, widx = 5, ridx = 2, cidx = - 1\<rparr>,
        eastaccmode := 2\<rparr>) \<and>
   east dev_west_pending = None \<and>
   ridx (webuf dev_west_pending) = 0 \<and> widx (webuf dev_west_pending) = 3 \<and>
   cidx (ewbuf dev_west_pending) = 5"
proof -
  have o: "proxy_open None None dev_west_pending 3 2 =
     (Returns 0, dev_west_pending\<lparr>nopen := 2, east := Some 3,
        webuf := \<lparr>buf = Some zeros8, widx = 3, ridx = 3, cidx = - 1\<rparr>,
        ewbuf := \<lparr>buf = Some zeros8, widx = 5, ridx = 2, cidx = - 1\<rparr>,
        eastaccmode := 2\<rparr>)"
    by (simp add: proxy_open_def dev_west_pending_def Let_def)
  have s: "east dev_west_pending = None \<or> west dev_west_pending = None"
    by (simp add: dev_west_pending_def)
  show ?thesis
    using open_resets_inbound [OF o s] o s by (simp add: dev_west_pending_def)
qed

subsection \<open>Non-blocking calls\<close>

text \<open>
  C9.  A non-blocking write is to fail with \<open>EWOULDBLOCK\<close> while the other side is
  not connected, whether or not the buffer has room; the head of the source says that
  the device blocks when the other end is closed.  The driver tests that as
  \<open>nopen \<noteq> 2\<close>, and \<^verbatim>\<open>proxy_open\<close> leaves \<open>nopen\<close> raised when it fails with
  \<open>ENOMEM\<close>.  On a fresh device, after an open that fails for lack of memory and an
  open by file 1 that succeeds, the west side is free, and a non-blocking write of one
  byte by file 1 returns 1.
\<close>

theorem write_succeeds_without_peer:
  "fst (proxy_open None None (px_init 0) 9 2) = Fails ENOMEM \<and>
   fst (proxy_open (Some zeros8) (Some zeros8) (snd (proxy_open None None (px_init 0) 9 2)) 1 2)
     = Returns 0 \<and>
   east dev_leaked = Some 1 \<and> west dev_leaked = None \<and> peer dev_leaked 1 = None \<and>
   (2050 :: int) AND O_NONBLOCK \<noteq> 0 \<and>
   \<not> is_full 8 (ewbuf dev_leaked) \<and>
   fst (proxy_write 8 dev_leaked 1 2050 [65] False) = Returns 1"
  by (simp add: dev_leaked_eq proxy_open_def px_init_def cirbuf_init_def Let_def
      peer_def proxy_write_def cirbuf_write_def copy_from_user_def is_full_def empty_at_def
      zeros8_def int_of_size_t_small O_NONBLOCK_def)

theorem write_succeeds_without_peer_witness:
  "west dev_leaked = None \<and> peer dev_leaked 1 = None \<and>
   fst (proxy_write 8 dev_leaked 1 2050 [65] False) = Returns 1"
  using write_succeeds_without_peer by simp

subsection \<open>Calls from a file that is on neither side\<close>

text \<open>
  C10.  A read or a write through a file that is neither \<open>east\<close> nor \<open>west\<close> of its
  device returns 0, not an error, and the device is as before: cursors, close
  markers, sides and open count.
\<close>

theorem unknown_file_returns_zero:
  "east dev \<noteq> Some filp \<Longrightarrow> west dev \<noteq> Some filp \<Longrightarrow>
   proxy_read buffersize dev filp f_flags count sig = (Returns (0, []), dev) \<and>
   proxy_write buffersize dev filp f_flags buff sig = (Returns 0, dev)"
  by (auto simp: proxy_read_def proxy_write_def)

theorem unknown_file_returns_zero_witness:
  "east (px_init 0) \<noteq> Some 7 \<and> west (px_init 0) \<noteq> Some 7 \<and>
   proxy_read 8 (px_init 0) 7 2 4 False = (Returns (0, []), px_init 0) \<and>
   proxy_write 8 (px_init 0) 7 2 [65, 66] False = (Returns 0, px_init 0)"
  using unknown_file_returns_zero [of "px_init 0" 7 8 2 4 False "[65, 66]"]
  by (simp add: px_init_def)

end
